theory Spec2Isabelle
  imports Main "HOL-Library.AList"
begin

section \<open>Data model of the pipeline module\<close>

text \<open>
  The module \<^verbatim>\<open>data_pipeline\<close> defines an enum \<^verbatim>\<open>TaskStatus\<close>, the dataclasses
  \<^verbatim>\<open>Task\<close> and \<^verbatim>\<open>DAGRun\<close>, and the class \<^verbatim>\<open>Pipeline\<close> with \<^verbatim>\<open>add_task\<close>,
  \<^verbatim>\<open>_get_execution_order\<close> and \<^verbatim>\<open>run\<close>.

  \<^verbatim>\<open>Task\<close> objects are mutable and \<^verbatim>\<open>run\<close> works on copies of the registered ones, so
  Task objects live in an explicit store: a list of task records in which an address is an
  index. Both \<^verbatim>\<open>Pipeline.tasks\<close> and \<^verbatim>\<open>DAGRun.tasks\<close> are insertion-ordered dictionaries from
  task id to a Task object, that is association lists from ids to addresses.
\<close>

type_synonym addr = nat

datatype TaskStatus = PENDING | RUNNING | SUCCESS | FAILED | SKIPPED

text \<open>
  A task body is an arbitrary Python callable invoked as
  \<^verbatim>\<open>task.callable(*task.args, context=context, **task.kwargs)\<close>. The static arguments are
  part of the closure. A body may depend on and change the outside world (type \<open>'w\<close>) and
  the context dictionary it is handed; it either returns a payload or raises an
  \<^verbatim>\<open>Exception\<close>, of which \<^verbatim>\<open>run\<close> only uses \<^verbatim>\<open>str(e)\<close>.
\<close>

datatype 'v outcome = Returns 'v | Raises string

type_synonym 'v ctx = "string \<rightharpoonup> 'v"

type_synonym ('v, 'w) body = "'w \<Rightarrow> 'v ctx \<Rightarrow> 'v outcome \<times> 'w \<times> 'v ctx"

record ('v, 'w) task =
  task_id :: string
  callable :: "('v, 'w) body"
  dependencies :: "string list"
  retries :: int
  retry_delay :: int
  status :: TaskStatus
  result :: "'v option"
  error :: "string option"
  started_at :: "nat option"
  completed_at :: "nat option"

type_synonym ('v, 'w) heap = "('v, 'w) task list"

type_synonym task_dict = "(string \<times> addr) list"

text \<open>
  The fields of \<^verbatim>\<open>DAGRun\<close> and \<^verbatim>\<open>Pipeline\<close> that share a name with a field of \<^verbatim>\<open>Task\<close>
  carry the prefix \<open>run_\<close>. The run id is the pair of the pipeline id and the time stamp
  that the source formats into one string.
\<close>

record dag_run =
  run_id :: "string \<times> nat"
  run_dag_id :: string
  start_time :: nat
  end_time :: "nat option"
  run_status :: TaskStatus
  run_tasks :: task_dict

record pipeline =
  dag_id :: string
  tasks :: task_dict
  runs :: "dag_run list"

text \<open>The lines that \<^verbatim>\<open>run\<close> prints, in the order of the source.\<close>

datatype event =
    Starting string
  | ExecutionOrder "string list"
  | Skipping string
  | Running string int int
  | Completed string
  | Retrying string
  | FailedMsg string string

datatype py_error = KeyError string

text \<open>
  The state that \<^verbatim>\<open>run\<close> reads and writes: the store of Task objects, a logical clock
  behind \<^verbatim>\<open>datetime.now()\<close> (every reading advances it), the outside world of the task
  bodies, the dictionary bound to the local variable \<^verbatim>\<open>context\<close>, and the printed lines.
\<close>

record ('v, 'w) state =
  heap :: "('v, 'w) heap"
  clock :: nat
  world :: 'w
  shared_context :: "'v ctx"
  stdout :: "event list"

definition now :: "('v, 'w) state \<Rightarrow> nat \<times> ('v, 'w) state" where
  "now s = (clock s, s\<lparr>clock := Suc (clock s)\<rparr>)"

definition print :: "event \<Rightarrow> ('v, 'w) state \<Rightarrow> ('v, 'w) state" where
  "print e s = s\<lparr>stdout := stdout s @ [e]\<rparr>"

text \<open>An attribute assignment \<^verbatim>\<open>task.field = value\<close> on the object at address \<open>a\<close>.\<close>

definition setattr ::
  "addr \<Rightarrow> (('v, 'w) task \<Rightarrow> ('v, 'w) task) \<Rightarrow> ('v, 'w) state \<Rightarrow> ('v, 'w) state" where
  "setattr a f s = s\<lparr>heap := (heap s)[a := f (heap s ! a)]\<rparr>"

section \<open>Building a pipeline\<close>

text \<open>The defaults of the dataclass \<^verbatim>\<open>Task\<close>.\<close>

definition Task :: "string \<Rightarrow> ('v, 'w) body \<Rightarrow> string list \<Rightarrow> ('v, 'w) task" where
  "Task tid f deps =
     \<lparr>task_id = tid, callable = f, dependencies = deps, retries = 3, retry_delay = 60,
      status = PENDING, result = None, error = None, started_at = None, completed_at = None\<rparr>"

definition Pipeline :: "string \<Rightarrow> pipeline" where
  "Pipeline d = \<lparr>dag_id = d, tasks = [], runs = []\<rparr>"

text \<open>
  \<^verbatim>\<open>add_task\<close> creates a Task from the id, the body, \<^verbatim>\<open>dependencies or []\<close> and further
  keyword arguments (a function that overrides the defaults of other fields), and stores it
  with \<^verbatim>\<open>self.tasks[task_id] = task\<close>: a known id keeps its position in the dictionary
  and is bound to the new object, a new id is appended.
\<close>

definition add_task ::
  "pipeline \<Rightarrow> string \<Rightarrow> ('v, 'w) body \<Rightarrow> string list option
     \<Rightarrow> (('v, 'w) task \<Rightarrow> ('v, 'w) task) \<Rightarrow> ('v, 'w) state \<Rightarrow> pipeline \<times> ('v, 'w) state" where
  "add_task p tid f deps kwargs s =
     (let ds = (case deps of None \<Rightarrow> [] | Some ds \<Rightarrow> ds);
          t = (kwargs (Task tid f ds))\<lparr>task_id := tid, callable := f, dependencies := ds\<rparr>;
          a = length (heap s)
      in (p\<lparr>tasks := AList.update tid a (tasks p)\<rparr>, s\<lparr>heap := heap s @ [t]\<rparr>))"

section \<open>Execution order\<close>

text \<open>
  \<^verbatim>\<open>_get_execution_order\<close> is a depth-first traversal with a shared visited set and a
  shared output list. \<open>visit\<close> is the inner function of the source; \<open>visit_each\<close> is the
  loop \<^verbatim>\<open>for x in xs: visit(x)\<close>, which the source runs over the dependencies of a task and
  over the keys of \<^verbatim>\<open>self.tasks\<close>. An id that is not registered is marked visited and
  otherwise ignored (\<^verbatim>\<open>if task:\<close>).
\<close>

function visit :: "task_dict \<Rightarrow> ('v, 'w) heap \<Rightarrow> string \<Rightarrow> string set \<times> string list \<Rightarrow> string set \<times> string list"
  and visit_each :: "task_dict \<Rightarrow> ('v, 'w) heap \<Rightarrow> string list \<Rightarrow> string set \<times> string list \<Rightarrow> string set \<times> string list"
  where
  "visit ts h tid (visited, order) =
     (if tid \<in> visited then (visited, order)
      else (case map_of ts tid of
              None \<Rightarrow> (insert tid visited, order)
            | Some a \<Rightarrow>
                (case visit_each ts h (dependencies (h ! a)) (insert tid visited, order) of
                   (visited', order') \<Rightarrow> (visited', order' @ [tid]))))"
| "visit_each ts h [] vo = vo"
| "visit_each ts h (dep # deps) vo = visit_each ts h deps (visit ts h dep vo)"
  by pat_completeness auto

text \<open>
  The traversal terminates because every call that goes on marks a registered id that was not
  yet visited. The nested call in \<open>visit_each\<close> needs that \<open>visit\<close> only adds to the
  visited set.
\<close>

lemma visit_grows_partial:
  "visit_visit_each_dom (Inl (ts, h, tid, vo)) \<Longrightarrow> fst vo \<subseteq> fst (visit ts h tid vo)"
  "visit_visit_each_dom (Inr (ts, h, ds, vo)) \<Longrightarrow> fst vo \<subseteq> fst (visit_each ts h ds vo)"
proof (induction ts h tid vo and ts h ds vo rule: visit_visit_each.pinduct)
  case (1 ts h tid visited order)
  then show ?case
    by (auto simp: visit.psimps split: option.splits prod.splits)
next
  case (2 ts h vo)
  then show ?case by (simp add: visit_each.psimps)
next
  case (3 ts h dep deps vo)
  then show ?case by (auto simp: visit_each.psimps)
qed

termination visit
proof (relation "inv_image (less_than <*lex*> less_than) (\<lambda>x. case x of
           Inl (ts, h, tid, vo) \<Rightarrow> (card (fst ` set ts - fst vo), 0)
         | Inr (ts, h, ds, vo) \<Rightarrow> (card (fst ` set ts - fst vo), Suc (length ds)))", goal_cases)
  case 1
  show ?case by (intro wf_inv_image wf_lex_prod wf_less_than)
next
  case (2 ts h tid visited order a)
  then have "tid \<in> fst ` set ts" by (force dest: map_of_SomeD)
  with 2 have "fst ` set ts - insert tid visited \<subset> fst ` set ts - visited" by auto
  then have "card (fst ` set ts - insert tid visited) < card (fst ` set ts - visited)"
    by (intro psubset_card_mono) auto
  then show ?case by simp
next
  case (3 ts h dep deps vo)
  then show ?case by (cases vo) simp
next
  case (4 ts h dep deps vo)
  from visit_grows_partial(1)[OF 4] have "fst ` set ts - fst (visit ts h dep vo) \<subseteq> fst ` set ts - fst vo"
    by auto
  then have "card (fst ` set ts - fst (visit ts h dep vo)) \<le> card (fst ` set ts - fst vo)"
    by (intro card_mono) auto
  then show ?case by (cases vo; cases "visit ts h dep vo") auto
qed


definition get_execution_order :: "task_dict \<Rightarrow> ('v, 'w) heap \<Rightarrow> string list" where
  "get_execution_order ts h = snd (visit_each ts h (map fst ts) ({}, []))"

section \<open>Running a pipeline\<close>

text \<open>
  The dictionary comprehension \<^verbatim>\<open>{k: Task(**{**v.__dict__}) for k, v in self.tasks.items()}\<close>
  allocates one new Task object per registered task, with the field values of the original.
\<close>

fun copy_tasks :: "task_dict \<Rightarrow> ('v, 'w) heap \<Rightarrow> task_dict \<times> ('v, 'w) heap" where
  "copy_tasks [] h = ([], h)"
| "copy_tasks ((k, v) # kvs) h =
     (case copy_tasks kvs (h @ [h ! v]) of (d, h') \<Rightarrow> ((k, length h) # d, h'))"

text \<open>
  The gate \<^verbatim>\<open>all(dag_run.tasks[dep].status == TaskStatus.SUCCESS for dep in task.dependencies)\<close>
  evaluates lazily: it stops at the first dependency that is not \<^verbatim>\<open>SUCCESS\<close>, and the
  subscript raises \<^verbatim>\<open>KeyError\<close> for an id that is not in the dictionary.
\<close>

fun deps_success :: "task_dict \<Rightarrow> ('v, 'w) heap \<Rightarrow> string list \<Rightarrow> py_error + bool" where
  "deps_success dt h [] = Inr True"
| "deps_success dt h (dep # deps) =
     (case map_of dt dep of
        None \<Rightarrow> Inl (KeyError dep)
      | Some a \<Rightarrow> if status (h ! a) = SUCCESS then deps_success dt h deps else Inr False)"

text \<open>
  The retry loop \<^verbatim>\<open>for attempt in range(task.retries)\<close>: a successful attempt leaves the
  loop with \<^verbatim>\<open>break\<close>, a failed one records \<^verbatim>\<open>str(e)\<close> and goes on.
\<close>

fun attempt_loop :: "addr \<Rightarrow> string \<Rightarrow> nat list \<Rightarrow> ('v, 'w) state \<Rightarrow> ('v, 'w) state" where
  "attempt_loop a tid [] s = s"
| "attempt_loop a tid (attempt # rest) s =
     (let s1 = print (Running tid (int attempt + 1) (retries (heap s ! a))) s
      in case callable (heap s1 ! a) (world s1) (shared_context s1) of
           (Returns r, w, c) \<Rightarrow>
             (let s2 = s1\<lparr>world := w, shared_context := c\<rparr>;
                  s3 = setattr a (\<lambda>t. t\<lparr>result := Some r\<rparr>) s2;
                  s4 = setattr a (\<lambda>t. t\<lparr>status := SUCCESS\<rparr>) s3;
                  (t, s5) = now s4;
                  s6 = setattr a (\<lambda>t'. t'\<lparr>completed_at := Some t\<rparr>) s5
              in print (Completed tid) s6)
         | (Raises e, w, c) \<Rightarrow>
             (let s2 = s1\<lparr>world := w, shared_context := c\<rparr>;
                  s3 = setattr a (\<lambda>t. t\<lparr>error := Some e\<rparr>) s2
              in if int attempt < retries (heap s3 ! a) - 1
                 then attempt_loop a tid rest (print (Retrying tid) s3)
                 else (let s4 = setattr a (\<lambda>t. t\<lparr>status := FAILED\<rparr>) s3;
                           (t, s5) = now s4;
                           s6 = setattr a (\<lambda>t'. t'\<lparr>completed_at := Some t\<rparr>) s5
                       in attempt_loop a tid rest (print (FailedMsg tid e) s6))))"

text \<open>
  One iteration of \<^verbatim>\<open>for task_id in execution_order\<close>. An exception leaves \<^verbatim>\<open>run\<close>; the
  model returns it together with the state reached.
\<close>

definition exec_task ::
  "task_dict \<Rightarrow> string \<Rightarrow> ('v, 'w) state \<Rightarrow> py_error \<times> ('v, 'w) state + ('v, 'w) state" where
  "exec_task dt tid s =
     (case map_of dt tid of
        None \<Rightarrow> Inl (KeyError tid, s)
      | Some a \<Rightarrow>
          (case deps_success dt (heap s) (dependencies (heap s ! a)) of
             Inl e \<Rightarrow> Inl (e, s)
           | Inr False \<Rightarrow> Inr (print (Skipping tid) (setattr a (\<lambda>t. t\<lparr>status := SKIPPED\<rparr>) s))
           | Inr True \<Rightarrow>
               (let s1 = setattr a (\<lambda>t. t\<lparr>status := RUNNING\<rparr>) s;
                    (t, s2) = now s1;
                    s3 = setattr a (\<lambda>t'. t'\<lparr>started_at := Some t\<rparr>) s2
                in Inr (attempt_loop a tid [0..<nat (retries (heap s3 ! a))] s3))))"

fun exec_tasks ::
  "task_dict \<Rightarrow> string list \<Rightarrow> ('v, 'w) state \<Rightarrow> py_error \<times> ('v, 'w) state + ('v, 'w) state" where
  "exec_tasks dt [] s = Inr s"
| "exec_tasks dt (tid # tids) s =
     (case exec_task dt tid s of Inl es \<Rightarrow> Inl es | Inr s' \<Rightarrow> exec_tasks dt tids s')"

definition all_finished :: "task_dict \<Rightarrow> ('v, 'w) heap \<Rightarrow> bool" where
  "all_finished dt h = list_all (\<lambda>(k, a). status (h ! a) \<in> {SUCCESS, SKIPPED}) dt"

definition run ::
  "pipeline \<Rightarrow> 'v ctx option \<Rightarrow> ('v, 'w) state
     \<Rightarrow> py_error \<times> pipeline \<times> ('v, 'w) state + dag_run \<times> pipeline \<times> ('v, 'w) state" where
  "run p ctxt s =
     (let (t0, s0) = now s;
          (t1, s1) = now s0;
          (dt, h) = copy_tasks (tasks p) (heap s1);
          s2 = s1\<lparr>heap := h\<rparr>;
          dr = \<lparr>run_id = (dag_id p, t0), run_dag_id = dag_id p, start_time = t1,
                end_time = None, run_status = PENDING, run_tasks = dt\<rparr>;
          execution_order = get_execution_order (tasks p) (heap s2);
          s3 = s2\<lparr>shared_context := (case ctxt of None \<Rightarrow> Map.empty | Some c \<Rightarrow> c)\<rparr>;
          s4 = print (Starting (dag_id p)) s3;
          s5 = print (ExecutionOrder execution_order) s4
      in case exec_tasks dt execution_order s5 of
           Inl (e, s') \<Rightarrow> Inl (e, p, s')
         | Inr s6 \<Rightarrow>
             (let (t2, s7) = now s6;
                  dr' = dr\<lparr>end_time := Some t2,
                           run_status := (if all_finished dt (heap s7) then SUCCESS else FAILED)\<rparr>
              in Inr (dr', p\<lparr>runs := runs p @ [dr']\<rparr>, s7)))"

section \<open>Vocabulary of the specification\<close>

subsection \<open>Well-formed pipelines\<close>

text \<open>
  A Python dictionary has no repeated key and every value in \<^verbatim>\<open>self.tasks\<close> refers to an
  existing object. \<open>valid_dict\<close> adds that different ids refer to different objects, which
  holds for the copies a run works on.
\<close>

definition valid_refs :: "task_dict \<Rightarrow> ('v, 'w) heap \<Rightarrow> bool" where
  "valid_refs ts h \<longleftrightarrow> (\<forall>a \<in> snd ` set ts. a < length h)"

definition valid_dict :: "task_dict \<Rightarrow> ('v, 'w) heap \<Rightarrow> bool" where
  "valid_dict dt h \<longleftrightarrow> distinct (map snd dt) \<and> (\<forall>a \<in> snd ` set dt. a < length h)"

definition wf_pipeline :: "pipeline \<Rightarrow> ('v, 'w) state \<Rightarrow> bool" where
  "wf_pipeline p s \<longleftrightarrow> distinct (map fst (tasks p)) \<and> valid_refs (tasks p) (heap s)"

text \<open>A property of every registered Task object.\<close>

definition all_tasks :: "(('v, 'w) task \<Rightarrow> bool) \<Rightarrow> task_dict \<Rightarrow> ('v, 'w) heap \<Rightarrow> bool" where
  "all_tasks P ts h \<longleftrightarrow> (\<forall>a \<in> snd ` set ts. P (h ! a))"

text \<open>Every dependency id of every registered task names a registered task.\<close>

definition deps_registered :: "task_dict \<Rightarrow> ('v, 'w) heap \<Rightarrow> bool" where
  "deps_registered ts h \<longleftrightarrow> (\<forall>a \<in> snd ` set ts. set (dependencies (h ! a)) \<subseteq> fst ` set ts)"

text \<open>A Task as the dataclass defaults leave its run-time fields.\<close>

definition pristine :: "('v, 'w) task \<Rightarrow> bool" where
  "pristine t \<longleftrightarrow>
     status t = PENDING \<and> result t = None \<and> error t = None \<and>
     started_at t = None \<and> completed_at t = None"

text \<open>Two Task objects with the same definition: they differ at most in the run-time fields.\<close>

definition same_definition :: "('v, 'w) task \<Rightarrow> ('v, 'w) task \<Rightarrow> bool" where
  "same_definition t t' \<longleftrightarrow>
     task_id t' = task_id t \<and> callable t' = callable t \<and> dependencies t' = dependencies t \<and>
     retries t' = retries t \<and> retry_delay t' = retry_delay t"

subsection \<open>The dependency graph and positions in the order\<close>

text \<open>
  \<open>(t, d)\<close> is an edge when the registered task \<open>t\<close> lists \<open>d\<close> as a dependency. A pipeline
  is acyclic when this relation is, and \<open>d\<close> is a transitive dependency of \<open>t\<close> when the pair
  is in its transitive closure.
\<close>

definition dep_edges :: "task_dict \<Rightarrow> ('v, 'w) heap \<Rightarrow> (string \<times> string) set" where
  "dep_edges ts h = {(t, d). \<exists>a. map_of ts t = Some a \<and> d \<in> set (dependencies (h ! a))}"

text \<open>\<open>before d t xs\<close>: some occurrence of \<open>d\<close> in \<open>xs\<close> is followed by an occurrence of \<open>t\<close>.\<close>

fun before :: "'a \<Rightarrow> 'a \<Rightarrow> 'a list \<Rightarrow> bool" where
  "before d t [] = False"
| "before d t (x # xs) = ((x = d \<and> t \<in> set xs) \<or> before d t xs)"

definition closed_order :: "(string \<times> string) set \<Rightarrow> string list \<Rightarrow> bool" where
  "closed_order E order \<longleftrightarrow> (\<forall>t \<in> set order. \<forall>d. (t, d) \<in> E \<longrightarrow> before d t order)"

subsection \<open>Printed lines\<close>

text \<open>
  The lines printed between two states, the task a line is about, the lines that report a
  failed attempt (\<^verbatim>\<open>failed, retrying...\<close> and \<^verbatim>\<open>failed: ...\<close>) and the line printed just
  before each invocation of a body.
\<close>

definition printed :: "('v, 'w) state \<Rightarrow> ('v, 'w) state \<Rightarrow> event list" where
  "printed s s' = drop (length (stdout s)) (stdout s')"

definition about :: "string \<Rightarrow> event \<Rightarrow> bool" where
  "about tid e = (case e of
      Running k i r \<Rightarrow> k = tid | Completed k \<Rightarrow> k = tid | Retrying k \<Rightarrow> k = tid
    | FailedMsg k m \<Rightarrow> k = tid | Skipping k \<Rightarrow> k = tid | _ \<Rightarrow> False)"

definition failed_attempt :: "string \<Rightarrow> event \<Rightarrow> bool" where
  "failed_attempt tid e = (case e of Retrying k \<Rightarrow> k = tid | FailedMsg k m \<Rightarrow> k = tid | _ \<Rightarrow> False)"

definition is_running :: "string \<Rightarrow> event \<Rightarrow> bool" where
  "is_running tid e = (case e of Running k i r \<Rightarrow> k = tid | _ \<Rightarrow> False)"

subsection \<open>Attempts\<close>

text \<open>
  \<open>attempt_errors f n w c\<close> invokes the body \<open>n\<close> times in a row, each time in the world and
  with the context the previous invocation left. It is the list of the \<open>n\<close> error texts when
  every invocation raises, and \<open>None\<close> when one of them returns.
\<close>

fun attempt_errors :: "('v, 'w) body \<Rightarrow> nat \<Rightarrow> 'w \<Rightarrow> 'v ctx \<Rightarrow> string list option" where
  "attempt_errors f 0 w c = Some []"
| "attempt_errors f (Suc n) w c =
     (case f w c of
        (Raises e, w', c') \<Rightarrow> map_option ((#) e) (attempt_errors f n w' c')
      | (Returns r, w', c') \<Rightarrow> None)"

text \<open>
  \<open>attempt_failures f n w c\<close> invokes the body up to \<open>n\<close> times in the same way and stops at
  the first invocation that returns, as the \<^verbatim>\<open>break\<close> of the retry loop does. It is the list
  of the error texts of the invocations that raised, in the order of the attempts.
\<close>

fun attempt_failures :: "('v, 'w) body \<Rightarrow> nat \<Rightarrow> 'w \<Rightarrow> 'v ctx \<Rightarrow> string list" where
  "attempt_failures f 0 w c = []"
| "attempt_failures f (Suc n) w c =
     (case f w c of
        (Raises e, w', c') \<Rightarrow> e # attempt_failures f n w' c'
      | (Returns r, w', c') \<Rightarrow> [])"

text \<open>
  The state after an attempt that returned, after a failed attempt that is retried, and after
  the failed attempt that exhausts the retries; and the state in which the first attempt
  starts.
\<close>

definition on_success ::
  "addr \<Rightarrow> string \<Rightarrow> nat \<Rightarrow> 'v \<Rightarrow> 'w \<Rightarrow> 'v ctx \<Rightarrow> ('v, 'w) state \<Rightarrow> ('v, 'w) state" where
  "on_success a tid x r w c s =
     s\<lparr>heap := (heap s)[a := (heap s ! a)\<lparr>result := Some r, status := SUCCESS,
                                             completed_at := Some (clock s)\<rparr>],
       clock := Suc (clock s), world := w, shared_context := c,
       stdout := stdout s @ [Running tid (int x + 1) (retries (heap s ! a)), Completed tid]\<rparr>"

definition on_retry ::
  "addr \<Rightarrow> string \<Rightarrow> nat \<Rightarrow> string \<Rightarrow> 'w \<Rightarrow> 'v ctx \<Rightarrow> ('v, 'w) state \<Rightarrow> ('v, 'w) state" where
  "on_retry a tid x e w c s =
     s\<lparr>heap := (heap s)[a := (heap s ! a)\<lparr>error := Some e\<rparr>],
       world := w, shared_context := c,
       stdout := stdout s @ [Running tid (int x + 1) (retries (heap s ! a)), Retrying tid]\<rparr>"

definition on_failure ::
  "addr \<Rightarrow> string \<Rightarrow> nat \<Rightarrow> string \<Rightarrow> 'w \<Rightarrow> 'v ctx \<Rightarrow> ('v, 'w) state \<Rightarrow> ('v, 'w) state" where
  "on_failure a tid x e w c s =
     s\<lparr>heap := (heap s)[a := (heap s ! a)\<lparr>error := Some e, status := FAILED,
                                             completed_at := Some (clock s)\<rparr>],
       clock := Suc (clock s), world := w, shared_context := c,
       stdout := stdout s @ [Running tid (int x + 1) (retries (heap s ! a)), FailedMsg tid e]\<rparr>"

definition start_task :: "addr \<Rightarrow> ('v, 'w) state \<Rightarrow> ('v, 'w) state" where
  "start_task a s =
     s\<lparr>heap := (heap s)[a := (heap s ! a)\<lparr>status := RUNNING, started_at := Some (clock s)\<rparr>],
       clock := Suc (clock s)\<rparr>"

text \<open>A Task whose recorded outcome is complete: a result and an end time with \<^verbatim>\<open>SUCCESS\<close>,
  an error text and an end time with \<^verbatim>\<open>FAILED\<close>.\<close>

definition settled :: "('v, 'w) task \<Rightarrow> bool" where
  "settled t \<longleftrightarrow>
     (status t = SUCCESS \<longrightarrow> result t \<noteq> None \<and> completed_at t \<noteq> None) \<and>
     (status t = FAILED \<longrightarrow> error t \<noteq> None \<and> completed_at t \<noteq> None)"

subsection \<open>The main loop\<close>

text \<open>The objects that the ids in a list refer to.\<close>

definition addrs :: "task_dict \<Rightarrow> string list \<Rightarrow> addr set" where
  "addrs dt tids = {a. \<exists>k \<in> set tids. map_of dt k = Some a}"

text \<open>
  What the loop has done to a task it has processed. The gate of a task saw, for each
  dependency, the status left by the dependency's own iteration when that came earlier, and
  the status the dependency had at the start otherwise.
\<close>

definition gate_view ::
  "task_dict \<Rightarrow> string list \<Rightarrow> ('v, 'w) heap \<Rightarrow> ('v, 'w) heap \<Rightarrow> string \<Rightarrow> string
     \<Rightarrow> TaskStatus option" where
  "gate_view dt tids h h' k d =
     (case map_of dt d of
        None \<Rightarrow> None
      | Some b \<Rightarrow> Some (status (if before d k tids then h' ! b else h ! b)))"

definition processed ::
  "task_dict \<Rightarrow> string list \<Rightarrow> ('v, 'w) heap \<Rightarrow> ('v, 'w) heap \<Rightarrow> string \<Rightarrow> addr \<Rightarrow> bool" where
  "processed dt tids h h' k a \<longleftrightarrow>
     (status (h' ! a) = SKIPPED \<longleftrightarrow>
        (\<exists>d \<in> set (dependencies (h ! a)). \<exists>st. gate_view dt tids h h' k d = Some st \<and> st \<noteq> SUCCESS)) \<and>
     (status (h' ! a) = SKIPPED \<longrightarrow> h' ! a = (h ! a)\<lparr>status := SKIPPED\<rparr>) \<and>
     (status (h' ! a) \<noteq> SKIPPED \<longrightarrow>
        status (h' ! a) \<in> {RUNNING, SUCCESS, FAILED} \<and> settled (h' ! a) \<and>
        started_at (h' ! a) \<noteq> None \<and>
        (0 < retries (h ! a) \<longrightarrow> status (h' ! a) \<in> {SUCCESS, FAILED}))"

text \<open>
  The state in which the main loop of \<^verbatim>\<open>run\<close> starts, and the \<^verbatim>\<open>DAGRun\<close> that \<^verbatim>\<open>run\<close>
  returns when the loop ends in state \<open>s6\<close>.
\<close>

definition loop_start :: "pipeline \<Rightarrow> 'v ctx option \<Rightarrow> ('v, 'w) state \<Rightarrow> ('v, 'w) state" where
  "loop_start p ctxt s =
     \<lparr>heap = snd (copy_tasks (tasks p) (heap s)), clock = Suc (Suc (clock s)), world = world s,
      shared_context = (case ctxt of None \<Rightarrow> Map.empty | Some c \<Rightarrow> c),
      stdout = stdout s @ [Starting (dag_id p),
                 ExecutionOrder (get_execution_order (tasks p) (snd (copy_tasks (tasks p) (heap s))))]\<rparr>"

definition finish :: "pipeline \<Rightarrow> ('v, 'w) state \<Rightarrow> task_dict \<Rightarrow> ('v, 'w) state \<Rightarrow> dag_run" where
  "finish p s dt s6 =
     \<lparr>run_id = (dag_id p, clock s), run_dag_id = dag_id p, start_time = Suc (clock s),
      end_time = Some (clock s6),
      run_status = (if all_finished dt (heap s6) then SUCCESS else FAILED), run_tasks = dt\<rparr>"

subsection \<open>Observations on the outcome of a run\<close>

text \<open>
  The exception that left \<^verbatim>\<open>run\<close>, the state it left behind, the status of the returned
  \<^verbatim>\<open>DAGRun\<close>, and id, status, result and error of every Task of the returned \<^verbatim>\<open>DAGRun\<close>.
\<close>

definition raised ::
  "py_error \<times> pipeline \<times> ('v, 'w) state + dag_run \<times> pipeline \<times> ('v, 'w) state
     \<Rightarrow> py_error option" where
  "raised r = (case r of Inl (e, p, s) \<Rightarrow> Some e | Inr x \<Rightarrow> None)"

definition final_state ::
  "py_error \<times> pipeline \<times> ('v, 'w) state + dag_run \<times> pipeline \<times> ('v, 'w) state
     \<Rightarrow> ('v, 'w) state" where
  "final_state r = (case r of Inl (e, p, s) \<Rightarrow> s | Inr (dr, p, s) \<Rightarrow> s)"

definition overall ::
  "py_error \<times> pipeline \<times> ('v, 'w) state + dag_run \<times> pipeline \<times> ('v, 'w) state
     \<Rightarrow> TaskStatus option" where
  "overall r = (case r of Inl x \<Rightarrow> None | Inr (dr, p, s) \<Rightarrow> Some (run_status dr))"

definition executions ::
  "py_error \<times> pipeline \<times> ('v, 'w) state + dag_run \<times> pipeline \<times> ('v, 'w) state
     \<Rightarrow> (string \<times> TaskStatus \<times> 'v option \<times> string option) list" where
  "executions r =
     (case r of
        Inl x \<Rightarrow> []
      | Inr (dr, p, s) \<Rightarrow>
          map (\<lambda>(k, a). (k, status (heap s ! a), result (heap s ! a), error (heap s ! a)))
            (run_tasks dr))"

section \<open>Example pipelines\<close>

definition fresh_state :: "'w \<Rightarrow> ('v, 'w) state" where
  "fresh_state w = \<lparr>heap = [], clock = 0, world = w, shared_context = Map.empty, stdout = []\<rparr>"

definition returns_body :: "'v \<Rightarrow> ('v, 'w) body" where
  "returns_body v = (\<lambda>w c. (Returns v, w, c))"

definition raises_body :: "string \<Rightarrow> ('v, 'w) body" where
  "raises_body e = (\<lambda>w c. (Raises e, w, c))"

text \<open>
  A body in the style of \<^verbatim>\<open>calculate_metrics_task\<close>, which reads the result of an upstream
  task with \<^verbatim>\<open>context.get('fetch_earnings', {})\<close>: it returns what the context holds under
  the key, and reports when there is nothing.
\<close>

definition reads_body :: "string \<Rightarrow> ('v, 'w) body" where
  "reads_body k = (\<lambda>w c. (case c k of None \<Rightarrow> Raises ''missing'' | Some v \<Rightarrow> Returns v, w, c))"

text \<open>A body that fails on its first invocation and returns 7 afterwards, and one that
  always fails, with a different text on the first invocation. Both count their invocations
  in the world.\<close>

definition flaky_body :: "(nat, nat) body" where
  "flaky_body = (\<lambda>w c. (if w = 0 then Raises ''timeout'' else Returns 7, Suc w, c))"

definition two_failures :: "(nat, nat) body" where
  "two_failures = (\<lambda>w c. (Raises (if w = 0 then ''first'' else ''second''), Suc w, c))"

text \<open>A body that fails its first two invocations, with different texts, and returns 7
  afterwards.\<close>

definition two_then_ok :: "(nat, nat) body" where
  "two_then_ok = (\<lambda>w c. (if w = 0 then Raises ''first'' else if w = 1 then Raises ''second''
                            else Returns 7, Suc w, c))"

text \<open>The keyword argument \<^verbatim>\<open>retries=n\<close> of \<^verbatim>\<open>add_task\<close>.\<close>

definition with_retries :: "int \<Rightarrow> ('v, 'w) task \<Rightarrow> ('v, 'w) task" where
  "with_retries n t = t\<lparr>retries := n\<rparr>"

definition two_stage :: "pipeline \<times> (nat, unit) state" where
  "two_stage =
     (case add_task (Pipeline ''daily'') ''fetch'' (returns_body 1) None id (fresh_state ()) of
        (p, s) \<Rightarrow> add_task p ''metrics'' (reads_body ''fetch'') (Some [''fetch'']) id s)"

text \<open>\<open>A\<close> always fails and has two attempts, \<open>B\<close> depends on \<open>A\<close>, \<open>C\<close> depends on \<open>B\<close>.\<close>

definition failing_chain :: "pipeline \<times> (nat, unit) state" where
  "failing_chain =
     (case add_task (Pipeline ''chain'') ''A'' (raises_body ''boom'') None (with_retries 2)
             (fresh_state ()) of (p, s) \<Rightarrow>
      case add_task p ''B'' (returns_body 1) (Some [''A'']) id s of (p, s) \<Rightarrow>
        add_task p ''C'' (returns_body 2) (Some [''B'']) id s)"

text \<open>\<open>A\<close> depends on \<open>B\<close> and \<open>B\<close> on \<open>A\<close>; \<open>C\<close> depends on nothing.\<close>

definition cyclic :: "pipeline \<times> (nat, unit) state" where
  "cyclic =
     (case add_task (Pipeline ''cyclic'') ''A'' (returns_body 1) (Some [''B'']) id (fresh_state ()) of
        (p, s) \<Rightarrow>
      case add_task p ''B'' (returns_body 2) (Some [''A'']) id s of (p, s) \<Rightarrow>
        add_task p ''C'' (returns_body 3) None id s)"

text \<open>\<open>B\<close> depends on \<open>X\<close>, which is not registered.\<close>

definition dangling :: "pipeline \<times> (nat, unit) state" where
  "dangling =
     (case add_task (Pipeline ''dangling'') ''A'' (returns_body 1) None id (fresh_state ()) of
        (p, s) \<Rightarrow> add_task p ''B'' (returns_body 2) (Some [''X'']) id s)"

definition flaky :: "pipeline \<times> (nat, nat) state" where
  "flaky = add_task (Pipeline ''flaky'') ''A'' flaky_body None id (fresh_state 0)"

definition exhausting :: "pipeline \<times> (nat, nat) state" where
  "exhausting =
     add_task (Pipeline ''exhausting'') ''A'' two_failures None (with_retries 2) (fresh_state 0)"

text \<open>The dictionary of copies and the state with which the main loop of a run of
  \<open>exhausting\<close> starts.\<close>

definition exhausting_dict :: task_dict where
  "exhausting_dict = fst (copy_tasks (tasks (fst exhausting)) (heap (snd exhausting)))"

definition exhausting_start :: "(nat, nat) state" where
  "exhausting_start = loop_start (fst exhausting) None (snd exhausting)"

text \<open>One task with the default three attempts, whose body succeeds on the third.\<close>

definition recovering :: "pipeline \<times> (nat, nat) state" where
  "recovering = add_task (Pipeline ''recovering'') ''A'' two_then_ok None id (fresh_state 0)"

text \<open>\<open>A\<close> is registered with \<^verbatim>\<open>retries=0\<close>, and \<open>B\<close> depends on \<open>A\<close>.\<close>

definition zero_attempts :: "pipeline \<times> (nat, unit) state" where
  "zero_attempts =
     (case add_task (Pipeline ''zero'') ''A'' (returns_body 1) None (with_retries 0)
             (fresh_state ()) of
        (p, s) \<Rightarrow> add_task p ''B'' (returns_body 2) (Some [''A'']) id s)"

text \<open>The shape of \<^verbatim>\<open>create_daily_pipeline\<close>, with bodies that return at once.\<close>

definition daily :: "pipeline \<times> (nat, unit) state" where
  "daily =
     (case add_task (Pipeline ''daily_earnings_update'') ''fetch_earnings'' (returns_body 1) None id
             (fresh_state ()) of (p, s) \<Rightarrow>
      case add_task p ''calculate_metrics'' (returns_body 2) (Some [''fetch_earnings'']) id s of
        (p, s) \<Rightarrow>
      case add_task p ''store_results'' (returns_body 3) (Some [''calculate_metrics'']) id s of
        (p, s) \<Rightarrow>
        add_task p ''generate_alerts'' (returns_body 4) (Some [''calculate_metrics'']) id s)"

section \<open>The retry loop\<close>

lemma same_definition_refl [simp]: "same_definition t t"
  by (simp add: same_definition_def)

lemma same_definition_trans: "same_definition t t' \<Longrightarrow> same_definition t' t'' \<Longrightarrow> same_definition t t''"
  by (simp add: same_definition_def)

text \<open>One pass through the body of the retry loop, with the assignments of each branch
  collected into one state update.\<close>

lemma attempt_loop_cases:
  assumes "a < length (heap s)"
  shows "attempt_loop a tid (x # xs) s =
     (case callable (heap s ! a) (world s) (shared_context s) of
        (Returns r, w, c) \<Rightarrow> on_success a tid x r w c s
      | (Raises e, w, c) \<Rightarrow>
          if int x < retries (heap s ! a) - 1
          then attempt_loop a tid xs (on_retry a tid x e w c s)
          else attempt_loop a tid xs (on_failure a tid x e w c s))"
  using assms
  by (cases s)
     (simp add: Let_def print_def now_def setattr_def on_success_def on_retry_def on_failure_def
          split: prod.splits outcome.splits)

declare attempt_loop.simps(2) [simp del]

text \<open>
  Induction over the retry loop as a relation between the attempts left, the state before
  and the state after: one case for each way an attempt can end.
\<close>

lemma attempt_loop_rel_induct [consumes 1, case_names Nil Returns Retry Exhausted]:
  assumes len: "a < length (heap s)"
    and nil: "\<And>s. a < length (heap s) \<Longrightarrow> P [] s s"
    and ret: "\<And>x xs s r w c. a < length (heap s) \<Longrightarrow>
                callable (heap s ! a) (world s) (shared_context s) = (Returns r, w, c) \<Longrightarrow>
                P (x # xs) s (on_success a tid x r w c s)"
    and retry: "\<And>x xs s e w c. a < length (heap s) \<Longrightarrow>
                callable (heap s ! a) (world s) (shared_context s) = (Raises e, w, c) \<Longrightarrow>
                int x < retries (heap s ! a) - 1 \<Longrightarrow>
                P xs (on_retry a tid x e w c s) (attempt_loop a tid xs (on_retry a tid x e w c s)) \<Longrightarrow>
                P (x # xs) s (attempt_loop a tid xs (on_retry a tid x e w c s))"
    and exh: "\<And>x xs s e w c. a < length (heap s) \<Longrightarrow>
                callable (heap s ! a) (world s) (shared_context s) = (Raises e, w, c) \<Longrightarrow>
                \<not> int x < retries (heap s ! a) - 1 \<Longrightarrow>
                P xs (on_failure a tid x e w c s) (attempt_loop a tid xs (on_failure a tid x e w c s)) \<Longrightarrow>
                P (x # xs) s (attempt_loop a tid xs (on_failure a tid x e w c s))"
  shows "P atts s (attempt_loop a tid atts s)"
  using len
proof (induction atts arbitrary: s)
  case Nil
  then show ?case by (simp add: nil)
next
  case (Cons x xs)
  obtain out w c where call: "callable (heap s ! a) (world s) (shared_context s) = (out, w, c)"
    by (cases "callable (heap s ! a) (world s) (shared_context s)") auto
  show ?case
  proof (cases out)
    case (Returns r)
    with call Cons.prems ret[of s r w c x xs] show ?thesis
      by (simp add: attempt_loop_cases)
  next
    case (Raises e)
    show ?thesis
    proof (cases "int x < retries (heap s ! a) - 1")
      case True
      have "a < length (heap (on_retry a tid x e w c s))"
        using Cons.prems by (simp add: on_retry_def)
      from Cons.IH[OF this] retry[of s e w c x xs] call Raises True Cons.prems show ?thesis
        by (simp add: attempt_loop_cases)
    next
      case False
      have "a < length (heap (on_failure a tid x e w c s))"
        using Cons.prems by (simp add: on_failure_def)
      from Cons.IH[OF this] exh[of s e w c x xs] call Raises False Cons.prems show ?thesis
        by (simp add: attempt_loop_cases)
    qed
  qed
qed

text \<open>
  The loop writes to the object of its task only, and there only to the run-time fields; it
  never sets a status other than \<^verbatim>\<open>SUCCESS\<close> and \<^verbatim>\<open>FAILED\<close>.
\<close>

lemma attempt_loop_heap:
  assumes "a < length (heap s)"
  shows "heap (attempt_loop a tid atts s) = (heap s)[a := heap (attempt_loop a tid atts s) ! a]
       \<and> same_definition (heap s ! a) (heap (attempt_loop a tid atts s) ! a)
       \<and> started_at (heap (attempt_loop a tid atts s) ! a) = started_at (heap s ! a)
       \<and> status (heap (attempt_loop a tid atts s) ! a) \<in> {status (heap s ! a), SUCCESS, FAILED}
       \<and> (settled (heap s ! a) \<longrightarrow> settled (heap (attempt_loop a tid atts s) ! a))"
  using assms
proof (induction rule: attempt_loop_rel_induct[where tid = tid and atts = atts])
  case (Nil s)
  then show ?case by simp
next
  case (Returns x xs s r w c)
  then show ?case by (simp add: on_success_def same_definition_def settled_def)
next
  case (Retry x xs s e w c)
  then show ?case by (auto simp: on_retry_def same_definition_def settled_def)
next
  case (Exhausted x xs s e w c)
  then show ?case by (auto simp: on_failure_def same_definition_def settled_def)
qed

lemma attempt_loop_log:
  assumes "a < length (heap s)"
  shows "\<exists>log. stdout (attempt_loop a tid atts s) = stdout s @ log \<and> (\<forall>e \<in> set log. about tid e)
           \<and> (if \<exists>e \<in> set log. failed_attempt tid e
               then error (heap (attempt_loop a tid atts s) ! a) \<noteq> None
               else error (heap (attempt_loop a tid atts s) ! a) = error (heap s ! a))"
  using assms
proof (induction rule: attempt_loop_rel_induct[where tid = tid and atts = atts])
  case (Nil s)
  then show ?case by simp
next
  case (Returns x xs s r w c)
  then show ?case by (simp add: on_success_def about_def failed_attempt_def)
next
  case (Retry x xs s e w c)
  then obtain log where "stdout (attempt_loop a tid xs (on_retry a tid x e w c s)) = stdout (on_retry a tid x e w c s) @ log"
     "\<forall>e \<in> set log. about tid e" 
     "if \<exists>e \<in> set log. failed_attempt tid e
               then error (heap (attempt_loop a tid xs (on_retry a tid x e w c s)) ! a) \<noteq> None
               else error (heap (attempt_loop a tid xs (on_retry a tid x e w c s)) ! a) = error (heap (on_retry a tid x e w c s) ! a)"
    by blast
  with Retry(1) show ?case 
    by (intro exI[of _ "[Running tid (int x + 1) (retries (heap s ! a)), Retrying tid] @ log"])
       (auto simp: on_retry_def about_def failed_attempt_def split: if_splits)
next
  case (Exhausted x xs s e w c)
  then obtain log where "stdout (attempt_loop a tid xs (on_failure a tid x e w c s)) = stdout (on_failure a tid x e w c s) @ log"
     "\<forall>e \<in> set log. about tid e" 
     "if \<exists>e \<in> set log. failed_attempt tid e
               then error (heap (attempt_loop a tid xs (on_failure a tid x e w c s)) ! a) \<noteq> None
               else error (heap (attempt_loop a tid xs (on_failure a tid x e w c s)) ! a) = error (heap (on_failure a tid x e w c s) ! a)"
    by blast
  with Exhausted(1) show ?case 
    by (intro exI[of _ "[Running tid (int x + 1) (retries (heap s ! a)), FailedMsg tid e] @ log"])
       (auto simp: on_failure_def about_def failed_attempt_def split: if_splits)
qed

text \<open>With at least one attempt to make, the loop ends in \<^verbatim>\<open>SUCCESS\<close> or \<^verbatim>\<open>FAILED\<close>.\<close>

lemma attempt_loop_terminal:
  assumes "a < length (heap s)"
  shows "atts = [i..<nat (retries (heap s ! a))] \<Longrightarrow> atts \<noteq> [] \<Longrightarrow>
         status (heap (attempt_loop a tid atts s) ! a) \<in> {SUCCESS, FAILED}"
  using assms
proof (induction arbitrary: i rule: attempt_loop_rel_induct[where tid = tid and atts = atts])
  case (Nil s)
  then show ?case by simp
next
  case (Returns x xs s r w c)
  then show ?case by (simp add: on_success_def)
next
  case (Retry x xs s e w c)
  from Retry.prems(1)[symmetric]
  have x: "x = i" "xs = [Suc i..<nat (retries (heap s ! a))]" "i < nat (retries (heap s ! a))"
    by (auto simp: upt_eq_Cons_conv)
  with Retry(3) have "xs \<noteq> []" by auto
  with Retry(4)[of "Suc i"] x Retry(1) show ?case by (simp add: on_retry_def)
next
  case (Exhausted x xs s e w c)
  from Exhausted.prems(1)[symmetric]
  have x: "x = i" "xs = [Suc i..<nat (retries (heap s ! a))]" "i < nat (retries (heap s ! a))"
    by (auto simp: upt_eq_Cons_conv)
  with Exhausted(3) have "xs = []" by auto
  with Exhausted(1) show ?case by (simp add: on_failure_def)
qed

section \<open>One iteration of the main loop\<close>

text \<open>What each outcome of the gate says about the dependencies.\<close>

lemma deps_success_True:
  "deps_success dt h ds = Inr True \<longleftrightarrow> (\<forall>d \<in> set ds. \<exists>b. map_of dt d = Some b \<and> status (h ! b) = SUCCESS)"
  by (induction ds) (auto split: option.splits)

lemma deps_success_False:
  "deps_success dt h ds = Inr False \<Longrightarrow> \<exists>d \<in> set ds. \<exists>b. map_of dt d = Some b \<and> status (h ! b) \<noteq> SUCCESS"
  by (induction ds) (auto split: option.splits if_splits)

lemma deps_success_KeyError:
  "deps_success dt h ds = Inl e \<Longrightarrow> \<exists>d \<in> set ds. map_of dt d = None \<and> e = KeyError d"
  by (induction ds) (auto split: option.splits if_splits)

lemma deps_success_registered:
  "\<forall>d \<in> set ds. map_of dt d \<noteq> None \<Longrightarrow>
   deps_success dt h ds = Inr (\<forall>d \<in> set ds. status (h ! the (map_of dt d)) = SUCCESS)"
  by (induction ds) (auto split: option.splits)

text \<open>The three ways an iteration of the main loop can go.\<close>

lemma exec_task_KeyError:
  assumes "map_of dt tid = Some a" "exec_task dt tid s = Inl (e, s1)"
  shows "s1 = s \<and> (\<exists>d \<in> set (dependencies (heap s ! a)). map_of dt d = None \<and> e = KeyError d)"
  using assms
  by (auto simp: exec_task_def Let_def now_def split: sum.splits bool.splits prod.splits
           dest: deps_success_KeyError)

lemma exec_task_skip:
  assumes "map_of dt tid = Some a" "deps_success dt (heap s) (dependencies (heap s ! a)) = Inr False"
  shows "exec_task dt tid s =
           Inr (s\<lparr>heap := (heap s)[a := (heap s ! a)\<lparr>status := SKIPPED\<rparr>],
                  stdout := stdout s @ [Skipping tid]\<rparr>)"
  using assms by (cases s) (simp add: exec_task_def print_def setattr_def)

lemma exec_task_go:
  assumes "map_of dt tid = Some a" "a < length (heap s)"
    "deps_success dt (heap s) (dependencies (heap s ! a)) = Inr True"
  shows "exec_task dt tid s =
           Inr (attempt_loop a tid [0..<nat (retries (heap s ! a))] (start_task a s))"
  using assms by (cases s) (simp add: exec_task_def print_def setattr_def now_def start_task_def)

lemma exec_task_cases [consumes 3, case_names Skip Go]:
  assumes "map_of dt tid = Some a" "a < length (heap s)" "exec_task dt tid s = Inr s'"
    and "deps_success dt (heap s) (dependencies (heap s ! a)) = Inr False \<Longrightarrow>
         s' = s\<lparr>heap := (heap s)[a := (heap s ! a)\<lparr>status := SKIPPED\<rparr>],
                 stdout := stdout s @ [Skipping tid]\<rparr> \<Longrightarrow> P"
    and "deps_success dt (heap s) (dependencies (heap s ! a)) = Inr True \<Longrightarrow>
         s' = attempt_loop a tid [0..<nat (retries (heap s ! a))] (start_task a s) \<Longrightarrow> P"
  shows P
proof (cases "deps_success dt (heap s) (dependencies (heap s ! a))")
  case (Inl e)
  with assms(1,3) show ?thesis by (simp add: exec_task_def)
next
  case (Inr b)
  show ?thesis
  proof (cases b)
    case True
    with Inr assms(1-3) exec_task_go[of dt tid a s] assms(5) show ?thesis by simp
  next
    case False
    with Inr assms(1-3) exec_task_skip[of dt tid a s] assms(4) show ?thesis by simp
  qed
qed

lemma start_task_simps [simp]:
  "a < length (heap s) \<Longrightarrow> heap (start_task a s) ! a = (heap s ! a)\<lparr>status := RUNNING, started_at := Some (clock s)\<rparr>"
  "length (heap (start_task a s)) = length (heap s)"
  "stdout (start_task a s) = stdout s"
  "heap (start_task a s) = (heap s)[a := (heap s ! a)\<lparr>status := RUNNING, started_at := Some (clock s)\<rparr>]"
  by (simp_all add: start_task_def)

lemma exec_task_heap:
  assumes "map_of dt tid = Some a" "a < length (heap s)" "exec_task dt tid s = Inr s'"
  shows "heap s' = (heap s)[a := heap s' ! a]" "same_definition (heap s ! a) (heap s' ! a)"
  using assms
proof (induction rule: exec_task_cases)
  case Skip
  { case 1 then show ?case using Skip assms(2) by simp
  next case 2 then show ?case using Skip assms(2) by (simp add: same_definition_def) }
next
  case Go
  have len: "a < length (heap (start_task a s))" using assms(2) by simp
  { case 1 then show ?case using Go assms(2) attempt_loop_heap[OF len, of tid "[0..<nat (retries (heap s ! a))]"]
      by simp
  next case 2 then show ?case using Go assms(2) attempt_loop_heap[OF len, of tid "[0..<nat (retries (heap s ! a))]"]
      by (simp add: same_definition_def) }
qed

lemma exec_task_gate:
  assumes "map_of dt tid = Some a" "a < length (heap s)" "exec_task dt tid s = Inr s'"
  shows "status (heap s' ! a) = SKIPPED \<longleftrightarrow>
           (\<exists>d \<in> set (dependencies (heap s ! a)). \<exists>b. map_of dt d = Some b \<and> status (heap s ! b) \<noteq> SUCCESS)"
  using assms
proof (induction rule: exec_task_cases)
  case Skip
  from deps_success_False[OF Skip(1)] Skip(2) assms(2) show ?case by simp
next
  case Go
  have len: "a < length (heap (start_task a s))" using assms(2) by simp
  from attempt_loop_heap[OF len, of tid "[0..<nat (retries (heap s ! a))]"] Go(2) assms(2)
  have "status (heap s' ! a) \<noteq> SKIPPED" by auto
  moreover from Go(1) have "\<not> (\<exists>d \<in> set (dependencies (heap s ! a)). \<exists>b. map_of dt d = Some b \<and> status (heap s ! b) \<noteq> SUCCESS)"
    by (auto simp: deps_success_True)
  ultimately show ?case by simp
qed

lemma exec_task_skipped:
  assumes "map_of dt tid = Some a" "a < length (heap s)" "exec_task dt tid s = Inr s'"
    "status (heap s' ! a) = SKIPPED"
  shows "heap s' ! a = (heap s ! a)\<lparr>status := SKIPPED\<rparr> \<and> stdout s' = stdout s @ [Skipping tid]"
  using assms
proof (induction rule: exec_task_cases)
  case Skip
  with assms(2) show ?case by simp
next
  case Go
  have len: "a < length (heap (start_task a s))" using assms(2) by simp
  from attempt_loop_heap[OF len, of tid "[0..<nat (retries (heap s ! a))]"] Go(2) assms(2)
  have "status (heap s' ! a) \<noteq> SKIPPED" by auto
  with Go show ?case by simp
qed

lemma exec_task_executed:
  assumes "map_of dt tid = Some a" "a < length (heap s)" "exec_task dt tid s = Inr s'"
    "status (heap s' ! a) \<noteq> SKIPPED"
  shows "status (heap s' ! a) \<in> {RUNNING, SUCCESS, FAILED} \<and> settled (heap s' ! a)
       \<and> started_at (heap s' ! a) \<noteq> None
       \<and> (0 < retries (heap s ! a) \<longrightarrow> status (heap s' ! a) \<in> {SUCCESS, FAILED})"
  using assms
proof (induction rule: exec_task_cases)
  case Skip
  with assms(2) show ?case by simp
next
  case Go
  have len: "a < length (heap (start_task a s))" using assms(2) by simp
  have st: "settled (heap (start_task a s) ! a)" using assms(2) by (simp add: settled_def)
  have fin: "0 < retries (heap s ! a) \<Longrightarrow> status (heap s' ! a) \<in> {SUCCESS, FAILED}"
    using attempt_loop_terminal[OF len, of "[0..<nat (retries (heap s ! a))]" 0 tid] Go(2) assms(2)
    by simp
  from attempt_loop_heap[OF len, of tid "[0..<nat (retries (heap s ! a))]"] Go(2) assms(2) st fin
  show ?case by auto
qed

lemma exec_task_log:
  assumes "map_of dt tid = Some a" "a < length (heap s)" "exec_task dt tid s = Inr s'"
  shows "\<exists>log. stdout s' = stdout s @ log \<and> (\<forall>e \<in> set log. about tid e)
           \<and> (status (heap s' ! a) = SKIPPED \<longrightarrow> log = [Skipping tid])
           \<and> (if \<exists>e \<in> set log. failed_attempt tid e
               then error (heap s' ! a) \<noteq> None
               else error (heap s' ! a) = error (heap s ! a))"
  using assms
proof (induction rule: exec_task_cases)
  case Skip
  with assms(2) show ?case by (simp add: about_def failed_attempt_def)
next
  case Go
  have len: "a < length (heap (start_task a s))" using assms(2) by simp
  from attempt_loop_heap[OF len, of tid "[0..<nat (retries (heap s ! a))]"] Go(2) assms(2)
  have "status (heap s' ! a) \<noteq> SKIPPED" by auto
  moreover from attempt_loop_log[OF len, of tid "[0..<nat (retries (heap s ! a))]"] Go(2)
  obtain log where "stdout s' = stdout (start_task a s) @ log" "\<forall>e \<in> set log. about tid e"
    "if \<exists>e \<in> set log. failed_attempt tid e
     then error (heap s' ! a) \<noteq> None
     else error (heap s' ! a) = error (heap (start_task a s) ! a)"
    by auto
  ultimately show ?case using assms(2)
    by (intro exI[of _ log]) (auto split: if_splits)
qed

section \<open>Invariants of the main loop\<close>

lemma before_in_set: "before d t xs \<Longrightarrow> d \<in> set xs \<and> t \<in> set xs"
  by (induction xs) auto

lemma before_snoc: "before d t (xs @ [x]) \<longleftrightarrow> before d t xs \<or> (d \<in> set xs \<and> x = t)"
  by (induction xs) auto

lemma before_append_left: "before d t xs \<Longrightarrow> before d t (xs @ ys)"
  by (induction xs) auto


lemma before_trans: "distinct xs \<Longrightarrow> before a b xs \<Longrightarrow> before b c xs \<Longrightarrow> before a c xs"
  by (induction xs) (auto dest: before_in_set)

lemma valid_dict_addr: "valid_dict dt h \<Longrightarrow> map_of dt k = Some a \<Longrightarrow> a < length h"
  by (force simp: valid_dict_def dest: map_of_SomeD)

lemma valid_dict_inj:
  "valid_dict dt h \<Longrightarrow> map_of dt k = Some a \<Longrightarrow> map_of dt k' = Some a \<Longrightarrow> k = k'"
  unfolding valid_dict_def
  by (metis distinct_map inj_on_def map_of_SomeD snd_conv fst_conv)

lemma exec_tasks_snoc:
  "exec_tasks dt (xs @ [x]) s =
     (case exec_tasks dt xs s of Inl es \<Rightarrow> Inl es | Inr s1 \<Rightarrow> exec_task dt x s1)"
  by (induction xs arbitrary: s) (auto split: sum.splits)

lemma exec_tasks_snoc_Inr:
  "exec_tasks dt (xs @ [x]) s = Inr s' \<longleftrightarrow>
     (\<exists>s1. exec_tasks dt xs s = Inr s1 \<and> exec_task dt x s1 = Inr s')"
  by (simp add: exec_tasks_snoc split: sum.splits)

text \<open>
  The loop leaves every object alone that does not belong to one of the ids it processes,
  and it never changes the definition of a task.
\<close>

lemma exec_tasks_frame:
  assumes "exec_tasks dt tids s = Inr s'" "set tids \<subseteq> fst ` set dt" "valid_dict dt (heap s)"
  shows "length (heap s') = length (heap s)
       \<and> (\<forall>b. b \<notin> addrs dt tids \<longrightarrow> heap s' ! b = heap s ! b)
       \<and> (\<forall>b < length (heap s). same_definition (heap s ! b) (heap s' ! b))"
  using assms
proof (induction tids arbitrary: s' rule: rev_induct)
  case Nil
  then show ?case by simp
next
  case (snoc x xs)
  from snoc.prems(1) obtain s1 where s1: "exec_tasks dt xs s = Inr s1" "exec_task dt x s1 = Inr s'"
    by (auto simp: exec_tasks_snoc_Inr)
  from snoc.IH[OF s1(1)] snoc.prems have ih: "length (heap s1) = length (heap s)"
     "\<And>b. b \<notin> addrs dt xs \<Longrightarrow> heap s1 ! b = heap s ! b"
     "\<And>b. b < length (heap s) \<Longrightarrow> same_definition (heap s ! b) (heap s1 ! b)" by auto
  from snoc.prems(2) obtain a where a: "map_of dt x = Some a"
    by (cases "map_of dt x") (auto simp: map_of_eq_None_iff)
  with snoc.prems(3) have len: "a < length (heap s)" by (rule valid_dict_addr)
  with ih have len1: "a < length (heap s1)" by simp
  note h = exec_task_heap[OF a len1 s1(2)]
  have "length (heap s') = length (heap s)" using h(1) ih(1) by (metis length_list_update)
  moreover have "heap s' ! b = heap s ! b" if "b \<notin> addrs dt (xs @ [x])" for b
  proof -
    from that a have "b \<noteq> a" "b \<notin> addrs dt xs" by (auto simp: addrs_def)
    with h(1) ih(2) show ?thesis by (metis nth_list_update_neq)
  qed
  moreover have "same_definition (heap s ! b) (heap s' ! b)" if "b < length (heap s)" for b
  proof (cases "b = a")
    case True
    with ih(3)[OF that] h(2) show ?thesis by (auto intro: same_definition_trans)
  next
    case False
    with h(1) have "heap s' ! b = heap s1 ! b" by (metis nth_list_update_neq)
    with ih(3)[OF that] show ?thesis by simp
  qed
  ultimately show ?case by blast
qed

text \<open>Every id of a duplicate-free order has been processed as \<open>processed\<close> describes.\<close>

lemma exec_tasks_processed:
  assumes "exec_tasks dt tids s = Inr s'" "set tids \<subseteq> fst ` set dt" "valid_dict dt (heap s)"
    "distinct tids" "k \<in> set tids" "map_of dt k = Some a"
  shows "processed dt tids (heap s) (heap s') k a"
  using assms
proof (induction tids arbitrary: s' rule: rev_induct)
  case Nil
  then show ?case by simp
next
  case (snoc x xs)
  from snoc.prems(1) obtain s1 where s1: "exec_tasks dt xs s = Inr s1" "exec_task dt x s1 = Inr s'"
    by (auto simp: exec_tasks_snoc_Inr)
  from snoc.prems have xs: "set xs \<subseteq> fst ` set dt" "distinct xs" "x \<notin> set xs" by auto
  note fr = exec_tasks_frame[OF s1(1) xs(1) snoc.prems(3)]
  from snoc.prems(2) obtain ax where ax: "map_of dt x = Some ax"
    by (cases "map_of dt x") (auto simp: map_of_eq_None_iff)
  with snoc.prems(3) have len: "ax < length (heap s)" by (rule valid_dict_addr)
  with fr have len1: "ax < length (heap s1)" by simp
  note h = exec_task_heap[OF ax len1 s1(2)]
  have other: "heap s' ! b = heap s1 ! b" if "b \<noteq> ax" for b
    using h(1) that by (metis nth_list_update_neq)
  have ax_fresh: "ax \<notin> addrs dt xs"
    using ax xs(3) valid_dict_inj[OF snoc.prems(3)] by (auto simp: addrs_def)
  with fr have ax_same: "heap s1 ! ax = heap s ! ax" by simp
  show ?case
  proof (cases "k = x")
    case True
    with ax snoc.prems(6) have a: "a = ax" by simp
    have view: "gate_view dt (xs @ [x]) (heap s) (heap s') x d = 
                (case map_of dt d of None \<Rightarrow> None | Some b \<Rightarrow> Some (status (heap s1 ! b)))" for d
    proof (cases "map_of dt d")
      case None
      then show ?thesis by (simp add: gate_view_def)
    next
      case (Some b)
      show ?thesis
      proof (cases "d \<in> set xs")
        case True
        with xs(3) have "d \<noteq> x" by auto
        with Some ax valid_dict_inj[OF snoc.prems(3)] have "b \<noteq> ax" by auto
        with True Some other show ?thesis
          by (auto simp: gate_view_def before_snoc dest: before_in_set)
      next
        case False
        with Some valid_dict_inj[OF snoc.prems(3)] have "b \<notin> addrs dt xs" by (auto simp: addrs_def)
        with fr have "heap s1 ! b = heap s ! b" by simp
        with False Some show ?thesis
          by (auto simp: gate_view_def before_snoc dest: before_in_set)
      qed
    qed
    have gate: "status (heap s' ! ax) = SKIPPED \<longleftrightarrow>
       (\<exists>d \<in> set (dependencies (heap s ! ax)). \<exists>st. gate_view dt (xs @ [x]) (heap s) (heap s') x d = Some st \<and> st \<noteq> SUCCESS)"
      using exec_task_gate[OF ax len1 s1(2)] ax_same
      by (auto simp: view split: option.splits)
    have skip: "status (heap s' ! ax) = SKIPPED \<Longrightarrow> heap s' ! ax = (heap s ! ax)\<lparr>status := SKIPPED\<rparr>"
      using exec_task_skipped[OF ax len1 s1(2)] ax_same by simp
    have exec: "status (heap s' ! ax) \<noteq> SKIPPED \<Longrightarrow> 
        status (heap s' ! ax) \<in> {RUNNING, SUCCESS, FAILED} \<and> settled (heap s' ! ax) \<and>
        started_at (heap s' ! ax) \<noteq> None \<and>
        (0 < retries (heap s ! ax) \<longrightarrow> status (heap s' ! ax) \<in> {SUCCESS, FAILED})"
      using exec_task_executed[OF ax len1 s1(2)] ax_same by simp
    from gate skip exec show ?thesis unfolding processed_def True a by blast
  next
    case False
    with snoc.prems have k: "k \<in> set xs" by auto
    with xs(3) snoc.prems(6) ax valid_dict_inj[OF snoc.prems(3)] have "a \<noteq> ax" by auto
    then have same: "heap s' ! a = heap s1 ! a" by (rule other)
    have ih: "processed dt xs (heap s) (heap s1) k a"
      using snoc.IH[OF s1(1) xs(1) snoc.prems(3) xs(2) k snoc.prems(6)] .
    have view: "gate_view dt (xs @ [x]) (heap s) (heap s') k d = gate_view dt xs (heap s) (heap s1) k d" for d
    proof (cases "map_of dt d")
      case None
      then show ?thesis by (simp add: gate_view_def)
    next
      case (Some b)
      show ?thesis
      proof (cases "before d k xs")
        case True
        then have "d \<in> set xs" by (auto dest: before_in_set)
        with xs(3) have "d \<noteq> x" by auto
        with Some ax valid_dict_inj[OF snoc.prems(3)] have "b \<noteq> ax" by auto
        with True Some other show ?thesis by (simp add: gate_view_def before_snoc)
      next
        case no: False
        with False Some show ?thesis by (auto simp: gate_view_def before_snoc)
      qed
    qed
    from ih show ?thesis unfolding processed_def view same .
  qed
qed

lemma about_unique: "about k e \<Longrightarrow> about k' e \<Longrightarrow> k = k'"
  by (auto simp: about_def split: event.splits)

lemma failed_attempt_about: "failed_attempt k e \<Longrightarrow> about k e"
  by (auto simp: failed_attempt_def about_def split: event.splits)

lemma is_running_about: "is_running k e \<Longrightarrow> about k e"
  by (auto simp: is_running_def about_def split: event.splits)

text \<open>
  The lines printed by the loop are about the processed ids; no attempt is printed for a
  skipped task, and the error of a task changes exactly when a failed attempt is printed.
\<close>

lemma exec_tasks_log:
  assumes "exec_tasks dt tids s = Inr s'" "set tids \<subseteq> fst ` set dt" "valid_dict dt (heap s)"
    "distinct tids"
  shows "\<exists>log. stdout s' = stdout s @ log \<and> (\<forall>e \<in> set log. \<exists>k \<in> set tids. about k e)
           \<and> (\<forall>k a. map_of dt k = Some a \<longrightarrow>
                 (status (heap s' ! a) = SKIPPED \<longrightarrow> k \<in> set tids \<longrightarrow> \<not> (\<exists>e \<in> set log. is_running k e)) \<and>
                 (if \<exists>e \<in> set log. failed_attempt k e
                  then error (heap s' ! a) \<noteq> None
                  else error (heap s' ! a) = error (heap s ! a)))"
  using assms
proof (induction tids arbitrary: s' rule: rev_induct)
  case Nil
  then show ?case by simp
next
  case (snoc x xs)
  from snoc.prems(1) obtain s1 where s1: "exec_tasks dt xs s = Inr s1" "exec_task dt x s1 = Inr s'"
    by (auto simp: exec_tasks_snoc_Inr)
  from snoc.prems have xs: "set xs \<subseteq> fst ` set dt" "distinct xs" "x \<notin> set xs" by auto
  note fr = exec_tasks_frame[OF s1(1) xs(1) snoc.prems(3)]
  from snoc.prems(2) obtain ax where ax: "map_of dt x = Some ax"
    by (cases "map_of dt x") (auto simp: map_of_eq_None_iff)
  with snoc.prems(3) have len: "ax < length (heap s)" by (rule valid_dict_addr)
  with fr have len1: "ax < length (heap s1)" by simp
  note h = exec_task_heap[OF ax len1 s1(2)]
  have other: "heap s' ! b = heap s1 ! b" if "b \<noteq> ax" for b
    using h(1) that by (metis nth_list_update_neq)
  from snoc.IH[OF s1(1) xs(1) snoc.prems(3) xs(2)] obtain log1 where log1:
    "stdout s1 = stdout s @ log1" "\<forall>e \<in> set log1. \<exists>k \<in> set xs. about k e"
    "\<And>k a. map_of dt k = Some a \<Longrightarrow>
        (status (heap s1 ! a) = SKIPPED \<longrightarrow> k \<in> set xs \<longrightarrow> \<not> (\<exists>e \<in> set log1. is_running k e)) \<and>
        (if \<exists>e \<in> set log1. failed_attempt k e
         then error (heap s1 ! a) \<noteq> None
         else error (heap s1 ! a) = error (heap s ! a))"
    by blast
  from exec_task_log[OF ax len1 s1(2)] obtain logx where logx:
    "stdout s' = stdout s1 @ logx" "\<forall>e \<in> set logx. about x e"
    "status (heap s' ! ax) = SKIPPED \<longrightarrow> logx = [Skipping x]"
    "if \<exists>e \<in> set logx. failed_attempt x e
     then error (heap s' ! ax) \<noteq> None
     else error (heap s' ! ax) = error (heap s1 ! ax)"
    by blast
  have no_x: "\<not> about x e" if "e \<in> set log1" for e
    using log1(2) that xs(3) about_unique by blast
  have no_k: "\<not> about k e" if "e \<in> set logx" "k \<noteq> x" for e k
    using logx(2) that about_unique by blast
  have "stdout s' = stdout s @ (log1 @ logx)" using log1(1) logx(1) by simp
  moreover have "\<forall>e \<in> set (log1 @ logx). \<exists>k \<in> set (xs @ [x]). about k e"
    using log1(2) logx(2) by auto
  moreover have "(status (heap s' ! a) = SKIPPED \<longrightarrow> k \<in> set (xs @ [x]) \<longrightarrow> \<not> (\<exists>e \<in> set (log1 @ logx). is_running k e)) \<and>
                 (if \<exists>e \<in> set (log1 @ logx). failed_attempt k e
                  then error (heap s' ! a) \<noteq> None
                  else error (heap s' ! a) = error (heap s ! a))"
    if ka: "map_of dt k = Some a" for k a
  proof (cases "k = x")
    case True
    with ka ax have a: "a = ax" by simp
    have l1: "\<not> (\<exists>e \<in> set log1. failed_attempt x e)" "\<not> (\<exists>e \<in> set log1. is_running x e)"
      using no_x failed_attempt_about is_running_about by blast+
    with log1(3)[OF ax] have "error (heap s1 ! ax) = error (heap s ! ax)" by simp
    with logx(3,4) l1 show ?thesis unfolding True a
      by (auto simp: is_running_def split: if_splits)
  next
    case False
    with ka ax valid_dict_inj[OF snoc.prems(3)] have "a \<noteq> ax" by auto
    then have same: "heap s' ! a = heap s1 ! a" by (rule other)
    have lx: "\<not> (\<exists>e \<in> set logx. failed_attempt k e)" "\<not> (\<exists>e \<in> set logx. is_running k e)"
      using no_k[OF _ False] failed_attempt_about is_running_about by blast+
    with log1(3)[OF ka] False show ?thesis unfolding same
      by (auto split: if_splits)
  qed
  ultimately show ?case by blast
qed

text \<open>The only exception of the loop is the \<^verbatim>\<open>KeyError\<close> of a gate.\<close>

lemma exec_tasks_KeyError:
  assumes "exec_tasks dt tids s = Inl (e, s1)" "set tids \<subseteq> fst ` set dt" "valid_dict dt (heap s)"
  shows "\<exists>k \<in> set tids. \<exists>a. map_of dt k = Some a \<and>
           (\<exists>d \<in> set (dependencies (heap s ! a)). map_of dt d = None \<and> e = KeyError d)"
  using assms
proof (induction tids arbitrary: s)
  case Nil
  then show ?case by simp
next
  case (Cons x xs)
  from Cons.prems(2) obtain ax where ax: "map_of dt x = Some ax"
    by (cases "map_of dt x") (auto simp: map_of_eq_None_iff)
  show ?case
  proof (cases "exec_task dt x s")
    case (Inl es)
    with Cons.prems(1) have "exec_task dt x s = Inl (e, s1)" by simp
    from exec_task_KeyError[OF ax this] ax show ?thesis by auto
  next
    case (Inr s2)
    with Cons.prems(1) have rest: "exec_tasks dt xs s2 = Inl (e, s1)" by simp
    have one: "exec_tasks dt [x] s = Inr s2" using Inr by simp
    from exec_tasks_frame[OF one _ Cons.prems(3)] Cons.prems(2)
    have fr: "length (heap s2) = length (heap s)"
      "\<And>b. b < length (heap s) \<Longrightarrow> same_definition (heap s ! b) (heap s2 ! b)" by auto
    have "valid_dict dt (heap s2)" using Cons.prems(3) fr(1) by (simp add: valid_dict_def)
    from Cons.IH[OF rest _ this] Cons.prems(2) obtain k a d where
      k: "k \<in> set xs" "map_of dt k = Some a" "d \<in> set (dependencies (heap s2 ! a))"
         "map_of dt d = None" "e = KeyError d" by auto
    from k(2) Cons.prems(3) have "a < length (heap s)" by (rule valid_dict_addr[rotated])
    from fr(2)[OF this] k(3) have "d \<in> set (dependencies (heap s ! a))"
      by (simp add: same_definition_def)
    with k show ?thesis by auto
  qed
qed

lemma exec_tasks_registered:
  assumes "set tids \<subseteq> fst ` set dt" "valid_dict dt (heap s)"
    "\<forall>a \<in> snd ` set dt. set (dependencies (heap s ! a)) \<subseteq> fst ` set dt"
  shows "\<exists>s'. exec_tasks dt tids s = Inr s'"
proof (cases "exec_tasks dt tids s")
  case (Inl es)
  obtain e s1 where "es = (e, s1)" by (cases es)
  with Inl exec_tasks_KeyError[OF _ assms(1,2)] obtain k a d where
    "map_of dt k = Some a" "d \<in> set (dependencies (heap s ! a))" "map_of dt d = None" by blast
  with assms(3) show ?thesis
    by (force simp: map_of_eq_None_iff dest: map_of_SomeD)
next
  case (Inr s')
  then show ?thesis by simp
qed

section \<open>Copying the registered tasks\<close>

text \<open>The copies are appended to the store in the order of the dictionary.\<close>

lemma copy_tasks_closed:
  assumes "valid_refs ts h"
  shows "copy_tasks ts h =
           (zip (map fst ts) [length h..<length h + length ts], h @ map (\<lambda>(k, a). h ! a) ts)"
  using assms
proof (induction ts arbitrary: h)
  case Nil
  then show ?case by simp
next
  case (Cons kv kvs)
  obtain k v where kv: "kv = (k, v)" by (cases kv)
  from Cons.prems kv have v: "v < length h" and rest: "valid_refs kvs h"
    by (auto simp: valid_refs_def)
  from rest have rest': "valid_refs kvs (h @ [h ! v])" by (auto simp: valid_refs_def)
  have same: "map (\<lambda>(k, a). (h @ [h ! v]) ! a) kvs = map (\<lambda>(k, a). h ! a) kvs"
    using rest by (auto simp: valid_refs_def nth_append)
  have upt: "[length h..<length h + Suc (length kvs)] = length h # [Suc (length h)..<Suc (length h) + length kvs]"
    by (simp add: upt_rec)
  show ?case
    unfolding kv using Cons.IH[OF rest'] same upt by simp
qed

lemma copy_tasks_heap:
  assumes "valid_refs ts h" "copy_tasks ts h = (dt, h')"
  shows "length h' = length h + length ts" "\<And>i. i < length h \<Longrightarrow> h' ! i = h ! i"
    "map fst dt = map fst ts" "map snd dt = [length h..<length h + length ts]"
  using assms by (auto simp: copy_tasks_closed nth_append)

lemma copy_tasks_valid:
  assumes "valid_refs ts h" "copy_tasks ts h = (dt, h')"
  shows "valid_dict dt h'"
proof -
  note hp = copy_tasks_heap[OF assms]
  have "distinct (map snd dt)" unfolding hp(4) by simp
  moreover have "snd ` set dt = {length h..<length h + length ts}"
    using hp(4) by (metis set_map set_upt)
  ultimately show ?thesis using hp(1) by (auto simp: valid_dict_def)
qed

lemma copy_tasks_lookup:
  assumes "valid_refs ts h" "copy_tasks ts h = (dt, h')" "map_of dt k = Some b"
  shows "length h \<le> b \<and> b < length h' \<and> (\<exists>a. map_of ts k = Some a \<and> a < length h \<and> h' ! b = h ! a)"
  using assms
proof (induction ts arbitrary: h dt)
  case Nil
  then show ?case by simp
next
  case (Cons kv kvs)
  obtain k0 v where kv: "kv = (k0, v)" by (cases kv)
  from Cons.prems kv have v: "v < length h" and rest: "valid_refs kvs h"
    by (auto simp: valid_refs_def)
  from rest have rest': "valid_refs kvs (h @ [h ! v])" by (auto simp: valid_refs_def)
  obtain d where d: "copy_tasks kvs (h @ [h ! v]) = (d, h')" "dt = (k0, length h) # d"
    using Cons.prems(2) kv by (auto split: prod.splits)
  note hp = copy_tasks_heap[OF rest' d(1)]
  show ?case
  proof (cases "k = k0")
    case True
    with d Cons.prems(3) have "b = length h" by simp
    moreover have "h' ! length h = h ! v" using hp(2)[of "length h"] by simp
    ultimately show ?thesis using True kv v hp(1) by simp
  next
    case False
    with d Cons.prems(3) have "map_of d k = Some b" by simp
    from Cons.IH[OF rest' d(1) this] obtain a where
      a: "length (h @ [h ! v]) \<le> b" "b < length h'" "map_of kvs k = Some a" "h' ! b = (h @ [h ! v]) ! a"
      by auto
    from a(3) rest have "a < length h" by (force simp: valid_refs_def dest: map_of_SomeD)
    with a False kv show ?thesis by (simp add: nth_append)
  qed
qed

lemma copy_tasks_keys:
  assumes "valid_refs ts h" "copy_tasks ts h = (dt, h')"
  shows "fst ` set dt = fst ` set ts"
  using copy_tasks_heap(3)[OF assms] by (metis set_map)

lemma copy_tasks_registered:
  assumes "valid_refs ts h" "copy_tasks ts h = (dt, h')" "map_of ts k = Some a"
  shows "\<exists>b. map_of dt k = Some b \<and> h' ! b = h ! a"
proof -
  from assms(3) have "k \<in> fst ` set dt"
    unfolding copy_tasks_keys[OF assms(1,2)] by (force dest: map_of_SomeD)
  then obtain b where b: "map_of dt k = Some b"
    by (cases "map_of dt k") (auto simp: map_of_eq_None_iff)
  from copy_tasks_lookup[OF assms(1,2) b] assms(3) b show ?thesis by auto
qed

text \<open>\<^verbatim>\<open>run\<close> is the main loop between \<open>loop_start\<close> and \<open>finish\<close>.\<close>

lemma run_unfold:
  "run p ctxt s =
     (case exec_tasks (fst (copy_tasks (tasks p) (heap s)))
             (get_execution_order (tasks p) (snd (copy_tasks (tasks p) (heap s))))
             (loop_start p ctxt s) of
        Inl (e, s') \<Rightarrow> Inl (e, p, s')
      | Inr s6 \<Rightarrow>
          Inr (finish p s (fst (copy_tasks (tasks p) (heap s))) s6,
               p\<lparr>runs := runs p @ [finish p s (fst (copy_tasks (tasks p) (heap s))) s6]\<rparr>,
               s6\<lparr>clock := Suc (clock s6)\<rparr>))"
  by (cases s)
     (simp add: run_def Let_def now_def print_def loop_start_def finish_def
           split: prod.splits sum.splits)

section \<open>Properties of the execution order\<close>

text \<open>The traversal reads nothing but the dependencies of the registered objects.\<close>

lemma visit_cong:
  assumes "\<forall>a \<in> snd ` set ts. dependencies (h ! a) = dependencies (h' ! a)"
  shows "visit ts h tid vo = visit ts h' tid vo" "visit_each ts h tids vo = visit_each ts h' tids vo"
  using assms
proof (induction ts h tid vo and ts h tids vo rule: visit_visit_each.induct)
  case (1 ts h tid visited order)
  show ?case
  proof (cases "tid \<in> visited")
    case True
    then show ?thesis by simp
  next
    case False
    show ?thesis
    proof (cases "map_of ts tid")
      case None
      with False show ?thesis by simp
    next
      case (Some a)
      then have "a \<in> snd ` set ts" by (force dest: map_of_SomeD)
      with 1(2) have "dependencies (h ! a) = dependencies (h' ! a)" by blast
      with 1(1)[OF False Some 1(2)] False Some show ?thesis by simp
    qed
  qed
next
  case (2 ts h vo)
  then show ?case by simp
next
  case (3 ts h dep deps vo)
  then show ?case by simp
qed

text \<open>
  For every pipeline, cyclic or not: a call only adds to the visited set, it appends to the
  output, and what it appends are, once each, the registered ids that it marks.
\<close>

lemma visit_spec:
  "fst vo \<subseteq> fst (visit ts h tid vo) \<and> tid \<in> fst (visit ts h tid vo) \<and>
   (\<exists>new. snd (visit ts h tid vo) = snd vo @ new \<and> distinct new \<and>
           set new = (fst (visit ts h tid vo) - fst vo) \<inter> fst ` set ts)"
  "fst vo \<subseteq> fst (visit_each ts h tids vo) \<and> set tids \<subseteq> fst (visit_each ts h tids vo) \<and>
   (\<exists>new. snd (visit_each ts h tids vo) = snd vo @ new \<and> distinct new \<and>
           set new = (fst (visit_each ts h tids vo) - fst vo) \<inter> fst ` set ts)"
proof (induction ts h tid vo and ts h tids vo rule: visit_visit_each.induct)
  case (1 ts h tid visited order)
  show ?case
  proof (cases "tid \<in> visited")
    case True
    then show ?thesis by simp
  next
    case False
    show ?thesis
    proof (cases "map_of ts tid")
      case None
      then have "tid \<notin> fst ` set ts" by (simp add: map_of_eq_None_iff)
      with False None show ?thesis by auto
    next
      case (Some a)
      then have key: "tid \<in> fst ` set ts" by (force dest: map_of_SomeD)
      let ?r = "visit_each ts h (dependencies (h ! a)) (insert tid visited, order)"
      from 1[OF False Some] obtain new where new:
        "insert tid visited \<subseteq> fst ?r" "snd ?r = order @ new" "distinct new"
        "set new = (fst ?r - insert tid visited) \<inter> fst ` set ts" by auto
      have eq: "visit ts h tid (visited, order) = (fst ?r, snd ?r @ [tid])"
        using False Some by (simp split: prod.splits)
      have "distinct (new @ [tid])" using new(3,4) by auto
      moreover have "set (new @ [tid]) = (fst ?r - visited) \<inter> fst ` set ts"
        using new(1,4) key False by auto
      ultimately show ?thesis unfolding eq using new(1,2)
        by (intro conjI exI[of _ "new @ [tid]"]) auto
    qed
  qed
next
  case (2 ts h vo)
  then show ?case by simp
next
  case (3 ts h dep deps vo)
  let ?r1 = "visit ts h dep vo"
  let ?r2 = "visit_each ts h deps ?r1"
  from 3(1) obtain new1 where n1: "fst vo \<subseteq> fst ?r1" "dep \<in> fst ?r1" "snd ?r1 = snd vo @ new1"
    "distinct new1" "set new1 = (fst ?r1 - fst vo) \<inter> fst ` set ts" by auto
  from 3(2) obtain new2 where n2: "fst ?r1 \<subseteq> fst ?r2" "set deps \<subseteq> fst ?r2" "snd ?r2 = snd ?r1 @ new2"
    "distinct new2" "set new2 = (fst ?r2 - fst ?r1) \<inter> fst ` set ts" by auto
  have "distinct (new1 @ new2)" using n1(4,5) n2(4,5) by auto
  moreover have "set (new1 @ new2) = (fst ?r2 - fst vo) \<inter> fst ` set ts"
    using n1(1,5) n2(1,5) by auto
  moreover have "snd ?r2 = snd vo @ (new1 @ new2)" using n1(3) n2(3) by simp
  ultimately show ?case using n1(1,2) n2(1,2)
    by (simp only: visit_each.simps) (intro conjI exI[of _ "new1 @ new2"]; auto)
qed

lemma get_execution_order_keys:
  "distinct (get_execution_order ts h) \<and> set (get_execution_order ts h) = fst ` set ts"
proof -
  let ?r = "visit_each ts h (map fst ts) ({}, [])"
  from visit_spec(2)[of "({}, [])" ts h "map fst ts"] obtain new where
    "set (map fst ts) \<subseteq> fst ?r" "snd ?r = new" "distinct new" "set new = fst ?r \<inter> fst ` set ts"
    by auto
  then show ?thesis by (auto simp: get_execution_order_def)
qed

lemma closed_order_snoc:
  assumes "closed_order E order" "\<forall>d. (t, d) \<in> E \<longrightarrow> d \<in> set order"
  shows "closed_order E (order @ [t])"
  using assms by (auto simp: closed_order_def before_snoc)

text \<open>
  For an acyclic pipeline with registered dependency ids. The ids that are marked but not
  yet in the output are the ones whose visit is still open; each of them depends transitively
  on the id being visited, so the id being visited is not one of them. A call therefore
  leaves the output closed under dependencies, with its id in it and with the same visits
  open.
\<close>

lemma visit_topological:
  fixes ts :: task_dict and h :: "('v, 'w) heap"
  assumes acyc: "acyclic (dep_edges ts h)"
    and reg: "\<forall>(t, d) \<in> dep_edges ts h. d \<in> fst ` set ts"
  shows "set (snd vo) \<subseteq> fst vo \<Longrightarrow> closed_order (dep_edges ts h) (snd vo) \<Longrightarrow>
         tid \<in> fst ` set ts \<Longrightarrow>
         \<forall>g \<in> fst vo - set (snd vo). (g, tid) \<in> (dep_edges ts h)\<^sup>+ \<Longrightarrow>
         set (snd (visit ts h tid vo)) \<subseteq> fst (visit ts h tid vo) \<and>
         closed_order (dep_edges ts h) (snd (visit ts h tid vo)) \<and>
         fst (visit ts h tid vo) - set (snd (visit ts h tid vo)) = fst vo - set (snd vo) \<and>
         tid \<in> set (snd (visit ts h tid vo))"
    and "set (snd vo) \<subseteq> fst vo \<Longrightarrow> closed_order (dep_edges ts h) (snd vo) \<Longrightarrow>
         set tids \<subseteq> fst ` set ts \<Longrightarrow>
         \<forall>g \<in> fst vo - set (snd vo). \<forall>d \<in> set tids. (g, d) \<in> (dep_edges ts h)\<^sup>+ \<Longrightarrow>
         set (snd (visit_each ts h tids vo)) \<subseteq> fst (visit_each ts h tids vo) \<and>
         closed_order (dep_edges ts h) (snd (visit_each ts h tids vo)) \<and>
         fst (visit_each ts h tids vo) - set (snd (visit_each ts h tids vo)) = fst vo - set (snd vo) \<and>
         set tids \<subseteq> set (snd (visit_each ts h tids vo))"
  using acyc reg
proof (induction ts h tid vo and ts h tids vo rule: visit_visit_each.induct)
  case (1 ts h tid visited order)
  let ?E = "dep_edges ts h"
  show ?case
  proof (cases "tid \<in> visited")
    case True
    have "tid \<in> set order"
    proof (rule ccontr)
      assume "tid \<notin> set order"
      with True 1(5) have "(tid, tid) \<in> ?E\<^sup>+" by simp
      with 1(6) show False by (simp add: acyclic_def)
    qed
    with True 1(2,3) show ?thesis by simp
  next
    case False
    from 1(4) obtain a where a: "map_of ts tid = Some a"
      by (cases "map_of ts tid") (auto simp: map_of_eq_None_iff)
    let ?ds = "dependencies (h ! a)"
    let ?r = "visit_each ts h ?ds (insert tid visited, order)"
    have edge: "(tid, d) \<in> ?E \<longleftrightarrow> d \<in> set ?ds" for d
      using a by (simp add: dep_edges_def)
    from 1(2) False have fresh: "tid \<notin> set order" by auto
    have pre1: "set (snd (insert tid visited, order)) \<subseteq> fst (insert tid visited, order)"
      using 1(2) by auto
    have pre2: "closed_order ?E (snd (insert tid visited, order))" using 1(3) by simp
    have pre3: "set ?ds \<subseteq> fst ` set ts" using 1(7) edge by blast
    have pre4: "\<forall>g \<in> fst (insert tid visited, order) - set (snd (insert tid visited, order)).
                  \<forall>d \<in> set ?ds. (g, d) \<in> ?E\<^sup>+"
    proof (intro ballI)
      fix g d assume g: "g \<in> fst (insert tid visited, order) - set (snd (insert tid visited, order))"
        and d: "d \<in> set ?ds"
      from d have e: "(tid, d) \<in> ?E" by (simp add: edge)
      show "(g, d) \<in> ?E\<^sup>+"
      proof (cases "g = tid")
        case True
        with e show ?thesis by auto
      next
        case False
        with g 1(5) have "(g, tid) \<in> ?E\<^sup>+" by simp
        with e show ?thesis by (auto intro: trancl_into_trancl)
      qed
    qed
    from 1(1)[OF False a pre1 pre2 pre3 pre4 1(6,7)]
    have post: "set (snd ?r) \<subseteq> fst ?r" "closed_order ?E (snd ?r)"
      "fst ?r - set (snd ?r) = insert tid visited - set order" "set ?ds \<subseteq> set (snd ?r)"
      by auto
    have eq: "visit ts h tid (visited, order) = (fst ?r, snd ?r @ [tid])"
      using False a by (simp split: prod.splits)
    from post(3) fresh have in_r: "tid \<in> fst ?r" "tid \<notin> set (snd ?r)" by auto
    have "closed_order ?E (snd ?r @ [tid])"
      using post(2,4) edge by (intro closed_order_snoc) auto
    moreover have "fst ?r - set (snd ?r @ [tid]) = visited - set order"
      using post(3) False by auto
    ultimately show ?thesis unfolding eq using post(1) in_r by simp
  qed
next
  case (2 ts h vo)
  then show ?case by simp
next
  case (3 ts h dep deps vo)
  let ?E = "dep_edges ts h"
  let ?r1 = "visit ts h dep vo"
  from 3(5,6) have p1: "dep \<in> fst ` set ts" "\<forall>g \<in> fst vo - set (snd vo). (g, dep) \<in> ?E\<^sup>+"
    by auto
  from 3(1)[OF 3(3,4) p1 3(7,8)]
  have post1: "set (snd ?r1) \<subseteq> fst ?r1" "closed_order ?E (snd ?r1)"
    "fst ?r1 - set (snd ?r1) = fst vo - set (snd vo)" "dep \<in> set (snd ?r1)" by auto
  from 3(5,6) post1(3) have p2: "set deps \<subseteq> fst ` set ts"
    "\<forall>g \<in> fst ?r1 - set (snd ?r1). \<forall>d \<in> set deps. (g, d) \<in> ?E\<^sup>+" by auto
  from 3(2)[OF post1(1,2) p2 3(7,8)]
  have post2: "set (snd (visit_each ts h deps ?r1)) \<subseteq> fst (visit_each ts h deps ?r1)"
    "closed_order ?E (snd (visit_each ts h deps ?r1))"
    "fst (visit_each ts h deps ?r1) - set (snd (visit_each ts h deps ?r1)) = fst ?r1 - set (snd ?r1)"
    "set deps \<subseteq> set (snd (visit_each ts h deps ?r1))" by auto
  from visit_spec(2)[of ?r1 ts h deps] have "set (snd ?r1) \<subseteq> set (snd (visit_each ts h deps ?r1))"
    by auto
  with post1 post2 show ?case by auto
qed

lemma get_execution_order_closed:
  assumes "acyclic (dep_edges ts h)" "\<forall>(t, d) \<in> dep_edges ts h. d \<in> fst ` set ts"
  shows "closed_order (dep_edges ts h) (get_execution_order ts h)"
  using visit_topological(2)[OF assms, of "({}, [])" "map fst ts"]
  by (simp add: get_execution_order_def closed_order_def)

lemma closed_order_trancl:
  assumes "closed_order E order" "distinct order" "(t, d) \<in> E\<^sup>+" "t \<in> set order"
  shows "before d t order"
  using assms(3,4)
proof (induction rule: trancl_induct)
  case (base y)
  with assms(1) show ?case by (auto simp: closed_order_def)
next
  case (step y z)
  then have ty: "before y t order" by simp
  then have "y \<in> set order" by (auto dest: before_in_set)
  with assms(1) step(2) have "before z y order" by (auto simp: closed_order_def)
  with ty assms(2) show ?case by (blast intro: before_trans)
qed

section \<open>A body that fails every attempt\<close>

lemma attempt_loop_exhausted:
  assumes "a < length (heap s)"
  shows "atts = [i..<n] \<Longrightarrow> n = nat (retries (heap s ! a)) \<Longrightarrow> i < n \<Longrightarrow>
         attempt_errors (callable (heap s ! a)) (n - i) (world s) (shared_context s) = Some es \<Longrightarrow>
         status (heap (attempt_loop a tid atts s) ! a) = FAILED \<and>
         error (heap (attempt_loop a tid atts s) ! a) = Some (last es) \<and>
         completed_at (heap (attempt_loop a tid atts s) ! a) \<noteq> None \<and>
         length es = n - i \<and>
         (\<exists>log. stdout (attempt_loop a tid atts s) = stdout s @ log \<and>
                length (filter (is_running tid) log) = n - i)"
  using assms
proof (induction arbitrary: i es rule: attempt_loop_rel_induct[where tid = tid and atts = atts])
  case (Nil s)
  from Nil(2)[symmetric] Nil(4) show ?case by simp
next
  case (Returns x xs s r w c)
  from Returns.prems(3) obtain m where "n - i = Suc m" by (cases "n - i") auto
  with Returns show ?case by simp
next
  case (Retry x xs s e w c)
  from Retry.prems(1)[symmetric] have x: "x = i" "xs = [Suc i..<n]"
    by (auto simp: upt_eq_Cons_conv)
  from Retry(3) Retry.prems(2) x have lt: "Suc i < n" by auto
  then have ni: "n - i = Suc (n - Suc i)" by simp
  from Retry.prems(4) Retry(2) obtain es' where es':
    "attempt_errors (callable (heap s ! a)) (n - Suc i) w c = Some es'" "es = e # es'"
    unfolding ni by auto
  let ?s1 = "on_retry a tid x e w c s"
  have s1: "heap ?s1 ! a = (heap s ! a)\<lparr>error := Some e\<rparr>" "world ?s1 = w" "shared_context ?s1 = c"
    "stdout ?s1 = stdout s @ [Running tid (int x + 1) (retries (heap s ! a)), Retrying tid]"
    using Retry(1) by (simp_all add: on_retry_def)
  have "n = nat (retries (heap ?s1 ! a))" using Retry.prems(2) s1 by simp
  moreover have "attempt_errors (callable (heap ?s1 ! a)) (n - Suc i) (world ?s1) (shared_context ?s1) = Some es'"
    using es'(1) s1 by simp
  ultimately have ih: "status (heap (attempt_loop a tid xs ?s1) ! a) = FAILED"
    "error (heap (attempt_loop a tid xs ?s1) ! a) = Some (last es')"
    "completed_at (heap (attempt_loop a tid xs ?s1) ! a) \<noteq> None"
    "length es' = n - Suc i"
    "\<exists>log. stdout (attempt_loop a tid xs ?s1) = stdout ?s1 @ log \<and>
           length (filter (is_running tid) log) = n - Suc i"
    using Retry(4)[OF x(2) _ lt, of es'] by auto
  from ih(5) obtain log where log: "stdout (attempt_loop a tid xs ?s1) = stdout ?s1 @ log"
    "length (filter (is_running tid) log) = n - Suc i" by blast
  from ih(4) lt have "es' \<noteq> []" by auto
  then have "last es = last es'" using es'(2) by simp
  moreover have "\<exists>log'. stdout (attempt_loop a tid xs ?s1) = stdout s @ log' \<and>
           length (filter (is_running tid) log') = n - i"
    using log s1(4) lt
    by (intro exI[of _ "[Running tid (int x + 1) (retries (heap s ! a)), Retrying tid] @ log"])
       (simp add: is_running_def)
  ultimately show ?case using ih(1-4) es'(2) lt by simp
next
  case (Exhausted x xs s e w c)
  from Exhausted.prems(1)[symmetric] have x: "x = i" "xs = [Suc i..<n]"
    by (auto simp: upt_eq_Cons_conv)
  from Exhausted(3) Exhausted.prems(2,3) x have last: "n = Suc i" by auto
  with x have xs: "xs = []" by simp
  from Exhausted.prems(4) Exhausted(2) last have es: "es = [e]" by auto
  show ?case unfolding xs using Exhausted(1) es last
    by (simp add: on_failure_def is_running_def)
qed

section \<open>The run as a whole\<close>

lemma get_execution_order_copies:
  assumes "valid_refs ts h"
  shows "get_execution_order ts (snd (copy_tasks ts h)) = get_execution_order ts h"
proof -
  obtain dt h' where c: "copy_tasks ts h = (dt, h')" by (cases "copy_tasks ts h")
  have "\<forall>a \<in> snd ` set ts. dependencies (h' ! a) = dependencies (h ! a)"
    using copy_tasks_heap(2)[OF assms c] assms by (auto simp: valid_refs_def)
  from visit_cong(2)[OF this] c show ?thesis by (simp add: get_execution_order_def)
qed

lemma run_Inr:
  assumes "valid_refs (tasks p) (heap s)" "run p ctxt s = Inr (dr, p', s')"
  shows "\<exists>h0 s6. copy_tasks (tasks p) (heap s) = (run_tasks dr, h0) \<and>
           heap (loop_start p ctxt s) = h0 \<and>
           stdout (loop_start p ctxt s) = stdout s @ [Starting (dag_id p),
              ExecutionOrder (get_execution_order (tasks p) (heap s))] \<and>
           exec_tasks (run_tasks dr) (get_execution_order (tasks p) (heap s)) (loop_start p ctxt s) = Inr s6 \<and>
           heap s' = heap s6 \<and> stdout s' = stdout s6 \<and>
           dr = finish p s (run_tasks dr) s6 \<and> p' = p\<lparr>runs := runs p @ [dr]\<rparr>"
proof -
  obtain dt h0 where c: "copy_tasks (tasks p) (heap s) = (dt, h0)"
    by (cases "copy_tasks (tasks p) (heap s)")
  have ord: "get_execution_order (tasks p) h0 = get_execution_order (tasks p) (heap s)"
    using get_execution_order_copies[OF assms(1)] c by simp
  from assms(2) obtain s6 where
    s6: "exec_tasks dt (get_execution_order (tasks p) (heap s)) (loop_start p ctxt s) = Inr s6"
    "dr = finish p s dt s6" "p' = p\<lparr>runs := runs p @ [dr]\<rparr>" "s' = s6\<lparr>clock := Suc (clock s6)\<rparr>"
    unfolding run_unfold c fst_conv snd_conv ord by (auto split: sum.splits prod.splits)
  have "run_tasks dr = dt" using s6(2) by (simp add: finish_def)
  with c s6 ord show ?thesis by (simp add: loop_start_def)
qed

lemma run_Inl:
  assumes "valid_refs (tasks p) (heap s)" "run p ctxt s = Inl (e, p', s')"
  shows "\<exists>dt h0. copy_tasks (tasks p) (heap s) = (dt, h0) \<and> heap (loop_start p ctxt s) = h0 \<and>
           exec_tasks dt (get_execution_order (tasks p) (heap s)) (loop_start p ctxt s) = Inl (e, s') \<and>
           p' = p"
proof -
  obtain dt h0 where c: "copy_tasks (tasks p) (heap s) = (dt, h0)"
    by (cases "copy_tasks (tasks p) (heap s)")
  have ord: "get_execution_order (tasks p) h0 = get_execution_order (tasks p) (heap s)"
    using get_execution_order_copies[OF assms(1)] c by simp
  from assms(2) have "exec_tasks dt (get_execution_order (tasks p) (heap s)) (loop_start p ctxt s) = Inl (e, s')" "p' = p"
    unfolding run_unfold c fst_conv snd_conv ord by (auto split: sum.splits prod.splits)
  with c show ?thesis by (simp add: loop_start_def)
qed

text \<open>Everything the run-level theorems need to know about the state after the main loop.\<close>

lemma run_tasks_processed:
  assumes vr: "valid_refs (tasks p) (heap s)" and run: "run p ctxt s = Inr (dr, p', s')"
    and k: "map_of (run_tasks dr) k = Some a"
  shows "\<exists>h0 a0. copy_tasks (tasks p) (heap s) = (run_tasks dr, h0) \<and>
           map_of (tasks p) k = Some a0 \<and> a0 < length (heap s) \<and> h0 ! a = heap s ! a0 \<and>
           length (heap s) \<le> a \<and> a < length (heap s') \<and> valid_dict (run_tasks dr) h0 \<and>
           same_definition (heap s ! a0) (heap s' ! a) \<and>
           processed (run_tasks dr) (get_execution_order (tasks p) (heap s)) h0 (heap s') k a"
proof -
  let ?order = "get_execution_order (tasks p) (heap s)"
  let ?dt = "run_tasks dr"
  from run_Inr[OF vr run] obtain h0 s6 where r:
    "copy_tasks (tasks p) (heap s) = (?dt, h0)" "heap (loop_start p ctxt s) = h0"
    "exec_tasks ?dt ?order (loop_start p ctxt s) = Inr s6" "heap s' = heap s6" by blast
  note vd = copy_tasks_valid[OF vr r(1)]
  have keys: "fst ` set ?dt = fst ` set (tasks p)" by (rule copy_tasks_keys[OF vr r(1)])
  have ord: "distinct ?order" "set ?order = fst ` set ?dt"
    using get_execution_order_keys[of "tasks p" "heap s"] keys by auto
  from copy_tasks_lookup[OF vr r(1) k] obtain a0 where a0:
    "length (heap s) \<le> a" "a < length h0" "map_of (tasks p) k = Some a0" "a0 < length (heap s)" "h0 ! a = heap s ! a0"
    by auto
  have vd': "valid_dict ?dt (heap (loop_start p ctxt s))" using vd r(2) by simp
  have sub: "set ?order \<subseteq> fst ` set ?dt" using ord by simp
  from k have kin: "k \<in> set ?order" unfolding ord by (force dest: map_of_SomeD)
  from exec_tasks_frame[OF r(3) sub vd'] r(2,4) a0(2)
  have fr: "length (heap s') = length h0" "same_definition (h0 ! a) (heap s' ! a)" by auto
  from exec_tasks_processed[OF r(3) sub vd' ord(1) kin k] r(2,4)
  have "processed ?dt ?order h0 (heap s') k a" by simp
  with r(1) a0 fr vd show ?thesis by auto
qed

lemma run_frame:
  assumes vr: "valid_refs (tasks p) (heap s)" and run: "run p ctxt s = Inr (dr, p', s')"
  shows "length (heap s) \<le> length (heap s')" "\<And>i. i < length (heap s) \<Longrightarrow> heap s' ! i = heap s ! i"
    "\<And>b. b \<in> snd ` set (run_tasks dr) \<Longrightarrow> length (heap s) \<le> b"
proof -
  let ?order = "get_execution_order (tasks p) (heap s)"
  let ?dt = "run_tasks dr"
  from run_Inr[OF vr run] obtain h0 s6 where r:
    "copy_tasks (tasks p) (heap s) = (?dt, h0)" "heap (loop_start p ctxt s) = h0"
    "exec_tasks ?dt ?order (loop_start p ctxt s) = Inr s6" "heap s' = heap s6" by blast
  note vd = copy_tasks_valid[OF vr r(1)]
  note hp = copy_tasks_heap[OF vr r(1)]
  have keys: "fst ` set ?dt = fst ` set (tasks p)" by (rule copy_tasks_keys[OF vr r(1)])
  have sub: "set ?order \<subseteq> fst ` set ?dt"
    using get_execution_order_keys[of "tasks p" "heap s"] keys by auto
  have vd': "valid_dict ?dt (heap (loop_start p ctxt s))" using vd r(2) by simp
  note fr = exec_tasks_frame[OF r(3) sub vd']
  show "length (heap s) \<le> length (heap s')" using fr r(2,4) hp(1) by simp
  have new: "length (heap s) \<le> b" if "b \<in> snd ` set ?dt" for b
  proof -
    from that have "b \<in> set (map snd ?dt)" by simp
    then show ?thesis unfolding hp(4) by simp
  qed
  then show "\<And>b. b \<in> snd ` set ?dt \<Longrightarrow> length (heap s) \<le> b" .
  show "heap s' ! i = heap s ! i" if "i < length (heap s)" for i
  proof -
    have "i \<notin> addrs ?dt ?order"
    proof
      assume "i \<in> addrs ?dt ?order"
      then obtain k where "map_of ?dt k = Some i" by (auto simp: addrs_def)
      then have "i \<in> snd ` set ?dt" by (force dest: map_of_SomeD)
      with new that show False by force
    qed
    with fr r(2,4) have "heap s' ! i = h0 ! i" by simp
    with hp(2)[OF that] show ?thesis by simp
  qed
qed

text \<open>
  When every registered task has at least one attempt, every task of a returned \<^verbatim>\<open>DAGRun\<close>
  is \<^verbatim>\<open>SUCCESS\<close>, \<^verbatim>\<open>FAILED\<close> or \<^verbatim>\<open>SKIPPED\<close>, and the run is \<^verbatim>\<open>SUCCESS\<close> exactly when no
  task is \<^verbatim>\<open>FAILED\<close>.
\<close>

lemma overall_status_with_positive_retries:
  assumes "wf_pipeline p s" "all_tasks (\<lambda>t. 0 < retries t) (tasks p) (heap s)"
    "run p ctxt s = Inr (dr, p', s')"
  shows "run_status dr \<in> {SUCCESS, FAILED} \<and>
         (\<forall>(k, a) \<in> set (run_tasks dr). status (heap s' ! a) \<in> {SUCCESS, FAILED, SKIPPED}) \<and>
         (run_status dr = SUCCESS \<longleftrightarrow> (\<forall>(k, a) \<in> set (run_tasks dr). status (heap s' ! a) \<noteq> FAILED)) \<and>
         (run_status dr = SUCCESS \<longleftrightarrow>
            (\<forall>(k, a) \<in> set (run_tasks dr). status (heap s' ! a) \<in> {SUCCESS, SKIPPED}))"
proof -
  from assms(1) have vr: "valid_refs (tasks p) (heap s)" and dk: "distinct (map fst (tasks p))"
    by (simp_all add: wf_pipeline_def)
  let ?order = "get_execution_order (tasks p) (heap s)"
  from run_Inr[OF vr assms(3)] obtain h0 s6 where c:
    "copy_tasks (tasks p) (heap s) = (run_tasks dr, h0)"
    "dr = finish p s (run_tasks dr) s6" "heap s' = heap s6" by blast
  have mk: "map fst (run_tasks dr) = map fst (tasks p)" by (rule copy_tasks_heap(3)[OF vr c(1)])
  have terminal: "status (heap s' ! a) \<in> {SUCCESS, FAILED, SKIPPED}"
    if ka: "(k, a) \<in> set (run_tasks dr)" for k a
  proof -
    from ka mk dk have m: "map_of (run_tasks dr) k = Some a" by simp
    from run_tasks_processed[OF vr assms(3) m] obtain h0' a0 where
      pr: "map_of (tasks p) k = Some a0" "h0' ! a = heap s ! a0"
      "processed (run_tasks dr) ?order h0' (heap s') k a" by blast
    from pr(1) have "a0 \<in> snd ` set (tasks p)" by (force dest: map_of_SomeD)
    with assms(2) pr(2) have "0 < retries (h0' ! a)" by (auto simp: all_tasks_def)
    with pr(3) show ?thesis by (auto simp: processed_def)
  qed
  have st: "run_status dr = SUCCESS \<longleftrightarrow>
            (\<forall>(k, a) \<in> set (run_tasks dr). status (heap s' ! a) \<in> {SUCCESS, SKIPPED})"
    by (subst c(2)) (auto simp: finish_def all_finished_def list_all_iff c(3))
  have two: "run_status dr \<in> {SUCCESS, FAILED}" by (subst c(2)) (simp add: finish_def)
  have "(\<forall>(k, a) \<in> set (run_tasks dr). status (heap s' ! a) \<in> {SUCCESS, SKIPPED}) \<longleftrightarrow>
        (\<forall>(k, a) \<in> set (run_tasks dr). status (heap s' ! a) \<noteq> FAILED)"
    using terminal by fastforce
  with st two terminal show ?thesis by blast
qed

lemma printed_run:
  assumes vr: "valid_refs (tasks p) (heap s)" and run: "run p ctxt s = Inr (dr, p', s')"
  shows "\<exists>log. printed s s' = Starting (dag_id p) # ExecutionOrder (get_execution_order (tasks p) (heap s)) # log \<and>
           (\<forall>e \<in> set log. \<exists>k \<in> fst ` set (tasks p). about k e) \<and>
           (\<forall>k a. map_of (run_tasks dr) k = Some a \<longrightarrow>
                 (status (heap s' ! a) = SKIPPED \<longrightarrow> \<not> (\<exists>e \<in> set log. is_running k e)) \<and>
                 (if \<exists>e \<in> set log. failed_attempt k e
                  then error (heap s' ! a) \<noteq> None
                  else error (heap s' ! a) = error (snd (copy_tasks (tasks p) (heap s)) ! a)))"
proof -
  let ?order = "get_execution_order (tasks p) (heap s)"
  let ?dt = "run_tasks dr"
  from run_Inr[OF vr run] obtain h0 s6 where r:
    "copy_tasks (tasks p) (heap s) = (?dt, h0)" "heap (loop_start p ctxt s) = h0"
    "stdout (loop_start p ctxt s) = stdout s @ [Starting (dag_id p), ExecutionOrder ?order]"
    "exec_tasks ?dt ?order (loop_start p ctxt s) = Inr s6" "heap s' = heap s6" "stdout s' = stdout s6"
    by blast
  note vd = copy_tasks_valid[OF vr r(1)]
  have keys: "fst ` set ?dt = fst ` set (tasks p)" by (rule copy_tasks_keys[OF vr r(1)])
  have ord: "distinct ?order" "set ?order = fst ` set ?dt"
    using get_execution_order_keys[of "tasks p" "heap s"] keys by auto
  have sub: "set ?order \<subseteq> fst ` set ?dt" using ord by simp
  have vd': "valid_dict ?dt (heap (loop_start p ctxt s))" using vd r(2) by simp
  from exec_tasks_log[OF r(4) sub vd' ord(1)] obtain log where log:
    "stdout s6 = stdout (loop_start p ctxt s) @ log" "\<forall>e \<in> set log. \<exists>k \<in> set ?order. about k e"
    "\<And>k a. map_of ?dt k = Some a \<Longrightarrow>
        (status (heap s6 ! a) = SKIPPED \<longrightarrow> k \<in> set ?order \<longrightarrow> \<not> (\<exists>e \<in> set log. is_running k e)) \<and>
        (if \<exists>e \<in> set log. failed_attempt k e
         then error (heap s6 ! a) \<noteq> None
         else error (heap s6 ! a) = error (heap (loop_start p ctxt s) ! a))"
    by blast
  have "printed s s' = Starting (dag_id p) # ExecutionOrder ?order # log"
    using log(1) r(3,6) by (simp add: printed_def)
  moreover have "\<forall>e \<in> set log. \<exists>k \<in> fst ` set (tasks p). about k e"
    using log(2) ord(2) keys by simp
  moreover have "(status (heap s' ! a) = SKIPPED \<longrightarrow> \<not> (\<exists>e \<in> set log. is_running k e)) \<and>
                 (if \<exists>e \<in> set log. failed_attempt k e
                  then error (heap s' ! a) \<noteq> None
                  else error (heap s' ! a) = error (snd (copy_tasks (tasks p) (heap s)) ! a))"
    if "map_of ?dt k = Some a" for k a
  proof -
    from that have "k \<in> set ?order" unfolding ord by (force dest: map_of_SomeD)
    with log(3)[OF that] r(1,2,5) show ?thesis by simp
  qed
  ultimately show ?thesis by blast
qed

text \<open>
  For registered tasks without an error: a task of the returned \<^verbatim>\<open>DAGRun\<close> has an error
  exactly when a failed attempt of it was printed during the run.
\<close>

lemma error_set_iff_failed_attempt_printed:
  assumes "wf_pipeline p s" "all_tasks (\<lambda>t. error t = None) (tasks p) (heap s)"
    "run p ctxt s = Inr (dr, p', s')" "map_of (run_tasks dr) k = Some a"
  shows "(error (heap s' ! a) \<noteq> None \<longleftrightarrow> (\<exists>e \<in> set (printed s s'). failed_attempt k e)) \<and>
         (status (heap s' ! a) = SKIPPED \<longrightarrow> error (heap s' ! a) = None) \<and>
         (status (heap s' ! a) = FAILED \<longrightarrow> error (heap s' ! a) \<noteq> None)"
proof -
  from assms(1) have vr: "valid_refs (tasks p) (heap s)" by (simp add: wf_pipeline_def)
  let ?order = "get_execution_order (tasks p) (heap s)"
  from run_tasks_processed[OF vr assms(3,4)] obtain h0 a0 where pr:
    "copy_tasks (tasks p) (heap s) = (run_tasks dr, h0)"
    "map_of (tasks p) k = Some a0" "h0 ! a = heap s ! a0"
    "processed (run_tasks dr) ?order h0 (heap s') k a" by blast
  from pr(2) have "a0 \<in> snd ` set (tasks p)" by (force dest: map_of_SomeD)
  with assms(2) pr(3) have e0: "error (h0 ! a) = None" by (auto simp: all_tasks_def)
  from printed_run[OF vr assms(3)] assms(4) pr(1) obtain log where log:
    "printed s s' = Starting (dag_id p) # ExecutionOrder ?order # log"
    "if \<exists>e \<in> set log. failed_attempt k e
     then error (heap s' ! a) \<noteq> None
     else error (heap s' ! a) = error (h0 ! a)"
    by auto
  have "(\<exists>e \<in> set (printed s s'). failed_attempt k e) \<longleftrightarrow> (\<exists>e \<in> set log. failed_attempt k e)"
    unfolding log(1) by (simp add: failed_attempt_def)
  with log(2) e0 have "error (heap s' ! a) \<noteq> None \<longleftrightarrow> (\<exists>e \<in> set (printed s s'). failed_attempt k e)"
    by (auto split: if_splits)
  moreover from pr(4) e0 have "status (heap s' ! a) = SKIPPED \<longrightarrow> error (heap s' ! a) = None"
    by (auto simp: processed_def)
  moreover from pr(4) have "status (heap s' ! a) = FAILED \<longrightarrow> error (heap s' ! a) \<noteq> None"
    by (auto simp: processed_def settled_def)
  ultimately show ?thesis by blast
qed

lemma dep_edges_registered:
  "deps_registered ts h \<Longrightarrow> \<forall>(t, d) \<in> dep_edges ts h. d \<in> fst ` set ts"
  by (force simp: deps_registered_def dep_edges_def dest: map_of_SomeD)

lemma dep_edges_key: "(t, d) \<in> (dep_edges ts h)\<^sup>+ \<Longrightarrow> t \<in> fst ` set ts"
  by (induction rule: trancl_induct) (force simp: dep_edges_def dest: map_of_SomeD)+

text \<open>With every dependency id registered, no subscript in the gate can fail.\<close>

lemma run_total:
  assumes "valid_refs (tasks p) (heap s)" "deps_registered (tasks p) (heap s)"
  shows "\<exists>dr p' s'. run p ctxt s = Inr (dr, p', s')"
proof (cases "run p ctxt s")
  case (Inl x)
  obtain e p' s' where x: "x = (e, p', s')" by (cases x)
  let ?order = "get_execution_order (tasks p) (heap s)"
  from run_Inl[OF assms(1) Inl[unfolded x]] obtain dt h0 where c:
    "copy_tasks (tasks p) (heap s) = (dt, h0)" "heap (loop_start p ctxt s) = h0"
    "exec_tasks dt ?order (loop_start p ctxt s) = Inl (e, s')" by blast
  note vd = copy_tasks_valid[OF assms(1) c(1)]
  have keys: "fst ` set dt = fst ` set (tasks p)" by (rule copy_tasks_keys[OF assms(1) c(1)])
  have sub: "set ?order \<subseteq> fst ` set dt"
    using get_execution_order_keys[of "tasks p" "heap s"] keys by auto
  have vd': "valid_dict dt (heap (loop_start p ctxt s))" using vd c(2) by simp
  from exec_tasks_KeyError[OF c(3) sub vd'] c(2) obtain k a d where
    k: "map_of dt k = Some a" "d \<in> set (dependencies (h0 ! a))" "map_of dt d = None" by auto
  from copy_tasks_lookup[OF assms(1) c(1) k(1)] obtain a0 where
    a0: "map_of (tasks p) k = Some a0" "h0 ! a = heap s ! a0" by auto
  then have "a0 \<in> snd ` set (tasks p)" by (force dest: map_of_SomeD)
  with assms(2) a0(2) k(2) have "d \<in> fst ` set (tasks p)" by (auto simp: deps_registered_def)
  with k(3) keys show ?thesis by (simp add: map_of_eq_None_iff)
next
  case (Inr x)
  then show ?thesis by (cases x) auto
qed

text \<open>
  The gate of a task, in terms of the registered tasks and the state after the run: the
  task was skipped exactly when one of its dependencies was not \<^verbatim>\<open>SUCCESS\<close> at that
  moment, which is its final status when the dependency comes earlier in the order and its
  registered status otherwise.
\<close>

lemma run_gate:
  assumes vr: "valid_refs (tasks p) (heap s)" and reg: "deps_registered (tasks p) (heap s)"
    and run: "run p ctxt s = Inr (dr, p', s')" and k: "map_of (run_tasks dr) k = Some a"
  shows "\<exists>a0. map_of (tasks p) k = Some a0 \<and> dependencies (heap s' ! a) = dependencies (heap s ! a0) \<and>
          (\<forall>d \<in> set (dependencies (heap s ! a0)). \<exists>b b0. map_of (run_tasks dr) d = Some b \<and>
              map_of (tasks p) d = Some b0 \<and> (k, d) \<in> dep_edges (tasks p) (heap s)) \<and>
          (status (heap s' ! a) = SKIPPED \<longleftrightarrow>
             (\<exists>d \<in> set (dependencies (heap s ! a0)). \<exists>b b0. map_of (run_tasks dr) d = Some b \<and>
                map_of (tasks p) d = Some b0 \<and>
                (if before d k (get_execution_order (tasks p) (heap s))
                 then status (heap s' ! b) \<noteq> SUCCESS else status (heap s ! b0) \<noteq> SUCCESS)))"
proof -
  let ?order = "get_execution_order (tasks p) (heap s)"
  let ?dt = "run_tasks dr"
  from run_tasks_processed[OF vr run k] obtain h0 a0 where pr:
    "copy_tasks (tasks p) (heap s) = (?dt, h0)"
    "map_of (tasks p) k = Some a0" "h0 ! a = heap s ! a0"
    "same_definition (heap s ! a0) (heap s' ! a)"
    "processed ?dt ?order h0 (heap s') k a" by blast
  from pr(2) have a0in: "a0 \<in> snd ` set (tasks p)" by (force dest: map_of_SomeD)
  have keys: "fst ` set ?dt = fst ` set (tasks p)" by (rule copy_tasks_keys[OF vr pr(1)])
  have dep: "\<exists>b b0. map_of ?dt d = Some b \<and> map_of (tasks p) d = Some b0 \<and> h0 ! b = heap s ! b0
                \<and> (k, d) \<in> dep_edges (tasks p) (heap s)"
    if d: "d \<in> set (dependencies (heap s ! a0))" for d
  proof -
    from d reg a0in have "d \<in> fst ` set ?dt" unfolding keys by (auto simp: deps_registered_def)
    then obtain b where b: "map_of ?dt d = Some b"
      by (cases "map_of ?dt d") (auto simp: map_of_eq_None_iff)
    from copy_tasks_lookup[OF vr pr(1) b] obtain b0 where
      "map_of (tasks p) d = Some b0" "h0 ! b = heap s ! b0" by auto
    moreover have "(k, d) \<in> dep_edges (tasks p) (heap s)" using pr(2) d by (auto simp: dep_edges_def)
    ultimately show ?thesis using b by auto
  qed
  have "status (heap s' ! a) = SKIPPED \<longleftrightarrow>
        (\<exists>d \<in> set (dependencies (heap s ! a0)). \<exists>b b0. map_of ?dt d = Some b \<and>
           map_of (tasks p) d = Some b0 \<and>
           (if before d k ?order then status (heap s' ! b) \<noteq> SUCCESS else status (heap s ! b0) \<noteq> SUCCESS))"
    (is "?l \<longleftrightarrow> ?r")
  proof
    assume ?l
    with pr(5) pr(3) obtain d st where d: "d \<in> set (dependencies (heap s ! a0))"
      "gate_view ?dt ?order h0 (heap s') k d = Some st" "st \<noteq> SUCCESS"
      by (auto simp: processed_def)
    from dep[OF d(1)] obtain b b0 where b: "map_of ?dt d = Some b" "map_of (tasks p) d = Some b0"
      "h0 ! b = heap s ! b0" by auto
    with d(2,3) have "if before d k ?order then status (heap s' ! b) \<noteq> SUCCESS else status (heap s ! b0) \<noteq> SUCCESS"
      by (auto simp: gate_view_def split: if_splits)
    with d(1) b show ?r by blast
  next
    assume ?r
    then obtain d b b0 where d: "d \<in> set (dependencies (heap s ! a0))" "map_of ?dt d = Some b"
      "map_of (tasks p) d = Some b0"
      "if before d k ?order then status (heap s' ! b) \<noteq> SUCCESS else status (heap s ! b0) \<noteq> SUCCESS"
      by blast
    from dep[OF d(1)] d(2,3) have "h0 ! b = heap s ! b0" by auto
    with d(2,4) have "\<exists>st. gate_view ?dt ?order h0 (heap s') k d = Some st \<and> st \<noteq> SUCCESS"
      by (auto simp: gate_view_def split: if_splits)
    with d(1) pr(3,5) show ?l by (auto simp: processed_def)
  qed
  moreover have "dependencies (heap s' ! a) = dependencies (heap s ! a0)"
    using pr(4) by (simp add: same_definition_def)
  ultimately show ?thesis using pr(2) dep by blast
qed


section \<open>The text of the last failed attempt\<close>

text \<open>
  With \<open>n\<close> the number of attempts of the task: from attempt \<open>i\<close> on, the retry loop leaves in
  \<^verbatim>\<open>error\<close> the text of the last of the remaining attempts that fail, and it leaves the
  task \<^verbatim>\<open>SUCCESS\<close> when not all of them fail.
\<close>

lemma attempt_loop_error:
  assumes "a < length (heap s)"
  shows "atts = [i..<n] \<Longrightarrow> n = nat (retries (heap s ! a)) \<Longrightarrow>
         fs = attempt_failures (callable (heap s ! a)) (n - i) (world s) (shared_context s) \<Longrightarrow>
         error (heap (attempt_loop a tid atts s) ! a) =
           (if fs = [] then error (heap s ! a) else Some (last fs)) \<and>
         (length fs < n - i \<longrightarrow> status (heap (attempt_loop a tid atts s) ! a) = SUCCESS)"
  using assms
proof (induction arbitrary: i fs rule: attempt_loop_rel_induct[where tid = tid and atts = atts])
  case (Nil s)
  from Nil(2)[symmetric] have "n - i = 0" by auto
  with Nil show ?case by simp
next
  case (Returns x xs s r w c)
  from Returns.prems(1)[symmetric] have "i < n" by (auto simp: upt_eq_Cons_conv)
  then obtain m where "n - i = Suc m" by (cases "n - i") auto
  with Returns show ?case by (simp add: on_success_def)
next
  case (Retry x xs s e w c)
  from Retry.prems(1)[symmetric] have x: "x = i" "xs = [Suc i..<n]" "i < n"
    by (auto simp: upt_eq_Cons_conv)
  then have ni: "n - i = Suc (n - Suc i)" by simp
  let ?s1 = "on_retry a tid x e w c s"
  let ?fs' = "attempt_failures (callable (heap s ! a)) (n - Suc i) w c"
  have fs: "fs = e # ?fs'" using Retry.prems(3) Retry(2) unfolding ni by simp
  have s1: "heap ?s1 ! a = (heap s ! a)\<lparr>error := Some e\<rparr>" "world ?s1 = w" "shared_context ?s1 = c"
    using Retry(1) by (simp_all add: on_retry_def)
  have "n = nat (retries (heap ?s1 ! a))" using Retry.prems(2) s1 by simp
  moreover have "?fs' = attempt_failures (callable (heap ?s1 ! a)) (n - Suc i) (world ?s1) (shared_context ?s1)"
    using s1 by simp
  ultimately have ih: "error (heap (attempt_loop a tid xs ?s1) ! a) =
           (if ?fs' = [] then error (heap ?s1 ! a) else Some (last ?fs'))"
     "length ?fs' < n - Suc i \<longrightarrow> status (heap (attempt_loop a tid xs ?s1) ! a) = SUCCESS"
    using Retry(4)[OF x(2), of ?fs'] by auto
  from ih s1(1) fs x(3) show ?case by auto
next
  case (Exhausted x xs s e w c)
  from Exhausted.prems(1)[symmetric] have x: "x = i" "xs = [Suc i..<n]" "i < n"
    by (auto simp: upt_eq_Cons_conv)
  from Exhausted(3) Exhausted.prems(2) x have last: "n = Suc i" by auto
  with x have xs: "xs = []" by simp
  from Exhausted.prems(3) Exhausted(2) last have fs: "fs = [e]" by simp
  show ?case unfolding xs using Exhausted(1) fs last by (simp add: on_failure_def)
qed

text \<open>
  When the loop reaches a task, the error of the task at the end of the loop is the text of
  the last attempt that failed, and it is what it was when nothing failed or the task was
  skipped; a task that is not skipped and has not used all its attempts is \<^verbatim>\<open>SUCCESS\<close>.
\<close>

lemma exec_tasks_last_failure:
  assumes "valid_dict dt (heap s)" "map_of dt k = Some a" "set rest \<subseteq> fst ` set dt" "k \<notin> set rest"
    and fs: "fs = attempt_failures (callable (heap s ! a)) (nat (retries (heap s ! a)))
                    (world s) (shared_context s)"
    and loop: "exec_tasks dt (k # rest) s = Inr s'"
  shows "error (heap s' ! a) =
           (if status (heap s' ! a) = SKIPPED \<or> fs = [] then error (heap s ! a) else Some (last fs)) \<and>
         (status (heap s' ! a) = FAILED \<longrightarrow> error (heap s' ! a) \<noteq> None) \<and>
         (status (heap s' ! a) \<noteq> SKIPPED \<and> length fs < nat (retries (heap s ! a)) \<longrightarrow>
            status (heap s' ! a) = SUCCESS)"
proof -
  from assms(1,2) have len: "a < length (heap s)" by (rule valid_dict_addr)
  from loop obtain s1 where one: "exec_task dt k s = Inr s1" and rest: "exec_tasks dt rest s1 = Inr s'"
    by (auto split: sum.splits)
  from exec_task_heap(1)[OF assms(2) len one] have len1: "length (heap s1) = length (heap s)"
    by (metis length_list_update)
  then have vd1: "valid_dict dt (heap s1)" using assms(1) by (simp add: valid_dict_def)
  have "a \<notin> addrs dt rest"
    using assms(2,4) valid_dict_inj[OF assms(1)] by (auto simp: addrs_def)
  with exec_tasks_frame[OF rest assms(3) vd1] have same: "heap s' ! a = heap s1 ! a" by simp
  have "error (heap s1 ! a) =
           (if status (heap s1 ! a) = SKIPPED \<or> fs = [] then error (heap s ! a) else Some (last fs)) \<and>
        (status (heap s1 ! a) = FAILED \<longrightarrow> error (heap s1 ! a) \<noteq> None) \<and>
        (status (heap s1 ! a) \<noteq> SKIPPED \<and> length fs < nat (retries (heap s ! a)) \<longrightarrow>
            status (heap s1 ! a) = SUCCESS)"
    using assms(2) len one
  proof (induction rule: exec_task_cases)
    case Skip
    with len show ?case by simp
  next
    case Go
    let ?s0 = "start_task a s"
    let ?n = "nat (retries (heap s ! a))"
    have len0: "a < length (heap ?s0)" using len by simp
    have n0: "?n = nat (retries (heap ?s0 ! a))" using len by simp
    have fs0: "fs = attempt_failures (callable (heap ?s0 ! a)) (?n - 0) (world ?s0) (shared_context ?s0)"
      using fs len by (simp add: start_task_def)
    from attempt_loop_error[OF len0 refl n0 fs0, of k] Go(2) len
    have e: "error (heap s1 ! a) = (if fs = [] then error (heap s ! a) else Some (last fs))"
      "length fs < ?n \<longrightarrow> status (heap s1 ! a) = SUCCESS" by simp_all
    from attempt_loop_heap[OF len0, of k "[0..<?n]"] Go(2) len
    have ns: "status (heap s1 ! a) \<noteq> SKIPPED" by auto
    from exec_task_executed[OF assms(2) len one ns]
    have "status (heap s1 ! a) = FAILED \<longrightarrow> error (heap s1 ! a) \<noteq> None"
      by (auto simp: settled_def)
    with e ns show ?case by simp
  qed
  then show ?thesis unfolding same .
qed

text \<open>The loop over a concatenation is the loop over its parts, one after the other.\<close>

lemma exec_tasks_append_Inr:
  "exec_tasks dt (xs @ ys) s = Inr s' \<longleftrightarrow>
     (\<exists>s1. exec_tasks dt xs s = Inr s1 \<and> exec_tasks dt ys s1 = Inr s')"
  by (induction xs arbitrary: s) (auto split: sum.splits)

section \<open>Evaluation of the examples\<close>

lemmas example_defs =
  failing_chain_def cyclic_def dangling_def flaky_def exhausting_def daily_def two_stage_def
  flaky_body_def two_failures_def with_retries_def two_then_ok_def recovering_def
  zero_attempts_def

lemmas run_eval =
  run_def now_def print_def get_execution_order_def exec_task_def setattr_def
  all_finished_def add_task_def Task_def Pipeline_def fresh_state_def
  returns_body_def raises_body_def reads_body_def Let_def upt_rec attempt_loop.simps
  raised_def final_state_def overall_def executions_def

lemma failing_chain_eval:
  "raised (run (fst failing_chain) None (snd failing_chain)) = None"
  "executions (run (fst failing_chain) None (snd failing_chain)) =
     [(''A'', FAILED, None, Some ''boom''), (''B'', SKIPPED, None, None), (''C'', SKIPPED, None, None)]"
  "overall (run (fst failing_chain) None (snd failing_chain)) = Some FAILED"
  by (simp_all add: example_defs run_eval)

lemma exhausting_eval:
  "executions (run (fst exhausting) None (snd exhausting)) =
     [(''A'', FAILED, None, Some ''second'')]"
  "stdout (final_state (run (fst exhausting) None (snd exhausting))) =
     [Starting ''exhausting'', ExecutionOrder [''A''], Running ''A'' 1 2, Retrying ''A'',
      Running ''A'' 2 2, FailedMsg ''A'' ''second'']"
  by (simp_all add: example_defs run_eval)

lemma daily_eval:
  "get_execution_order (tasks (fst daily)) (heap (snd daily)) =
     [''fetch_earnings'', ''calculate_metrics'', ''store_results'', ''generate_alerts'']"
  by (simp add: example_defs run_eval)

lemma daily_run_eval:
  "raised (run (fst daily) None (snd daily)) = None"
  "executions (run (fst daily) None (snd daily)) =
     [(''fetch_earnings'', SUCCESS, Some 1, None), (''calculate_metrics'', SUCCESS, Some 2, None),
      (''store_results'', SUCCESS, Some 3, None), (''generate_alerts'', SUCCESS, Some 4, None)]"
  by (simp_all add: example_defs run_eval)


lemma recovering_run:
  "\<exists>dr p' s'. run (fst recovering) None (snd recovering) = Inr (dr, p', s') \<and>
      run_tasks dr = [(''A'', 1)] \<and> status (heap s' ! 1) = SUCCESS \<and>
      result (heap s' ! 1) = Some 7 \<and> callable (heap s' ! 1) = two_then_ok \<and>
      retries (heap s' ! 1) = 3"
  by (simp add: example_defs run_eval)

subsection \<open>Shapes of the examples\<close>

lemma raised_None: "raised r = None \<longleftrightarrow> (\<exists>dr p s. r = Inr (dr, p, s))"
  by (cases r) (auto simp: raised_def split: prod.splits)

lemma daily_shape:
  "tasks (fst daily) =
     [(''fetch_earnings'', 0), (''calculate_metrics'', 1), (''store_results'', 2),
      (''generate_alerts'', 3)]"
  "map dependencies (heap (snd daily)) =
     [[], [''fetch_earnings''], [''calculate_metrics''], [''calculate_metrics'']]"
  "all_tasks pristine (tasks (fst daily)) (heap (snd daily))"
  "wf_pipeline (fst daily) (snd daily)"
  "deps_registered (tasks (fst daily)) (heap (snd daily))"
  by (simp_all add: example_defs add_task_def Task_def Pipeline_def fresh_state_def Let_def
        all_tasks_def pristine_def wf_pipeline_def valid_refs_def deps_registered_def)

lemma daily_edges:
  "dep_edges (tasks (fst daily)) (heap (snd daily)) =
     {(''calculate_metrics'', ''fetch_earnings''), (''store_results'', ''calculate_metrics''),
      (''generate_alerts'', ''calculate_metrics'')}"
  by (auto simp: dep_edges_def example_defs add_task_def Task_def Pipeline_def fresh_state_def
        Let_def split: if_splits)

lemmas build_defs =
  example_defs add_task_def Task_def Pipeline_def fresh_state_def Let_def
  all_tasks_def pristine_def wf_pipeline_def valid_refs_def deps_registered_def


lemma failing_chain_shape:
  "wf_pipeline (fst failing_chain) (snd failing_chain)"
  "deps_registered (tasks (fst failing_chain)) (heap (snd failing_chain))"
  "all_tasks (\<lambda>t. 0 < retries t) (tasks (fst failing_chain)) (heap (snd failing_chain))"
  "dep_edges (tasks (fst failing_chain)) (heap (snd failing_chain)) = {(''B'', ''A''), (''C'', ''B'')}"
  by (auto simp: build_defs dep_edges_def split: if_splits)

lemma failing_chain_run:
  obtains dr p' s' a b c where
    "run (fst failing_chain) None (snd failing_chain) = Inr (dr, p', s')"
    "run_tasks dr = [(''A'', a), (''B'', b), (''C'', c)]"
    "status (heap s' ! a) = FAILED" "status (heap s' ! b) = SKIPPED" "status (heap s' ! c) = SKIPPED"
    "run_status dr = FAILED"
proof -
  from failing_chain_eval(1) obtain dr p' s' where
    r: "run (fst failing_chain) None (snd failing_chain) = Inr (dr, p', s')"
    by (auto simp: raised_None)
  from failing_chain_eval(2) r have
    "map (\<lambda>(k, a). (k, status (heap s' ! a), result (heap s' ! a), error (heap s' ! a))) (run_tasks dr) =
     [(''A'', FAILED, None, Some ''boom''), (''B'', SKIPPED, None, None), (''C'', SKIPPED, None, None)]"
    by (simp add: executions_def)
  then obtain a b c where "run_tasks dr = [(''A'', a), (''B'', b), (''C'', c)]"
    "status (heap s' ! a) = FAILED" "status (heap s' ! b) = SKIPPED" "status (heap s' ! c) = SKIPPED"
    by (auto simp: map_eq_Cons_conv)
  moreover from failing_chain_eval(3) r have "run_status dr = FAILED" by (simp add: overall_def)
  ultimately show ?thesis using r that by blast
qed

lemma exhausting_shape:
  "exhausting_dict = [(''A'', 1)]"
  "valid_dict exhausting_dict (heap exhausting_start)"
  "deps_success exhausting_dict (heap exhausting_start) (dependencies (heap exhausting_start ! 1)) = Inr True"
  "retries (heap exhausting_start ! 1) = int 2"
  "attempt_errors (callable (heap exhausting_start ! 1)) 2 (world exhausting_start)
     (shared_context exhausting_start) = Some [''first'', ''second'']"
  "\<exists>s'. exec_tasks exhausting_dict [''A''] exhausting_start = Inr s'"
  by (simp_all add: exhausting_dict_def exhausting_start_def loop_start_def build_defs valid_dict_def
        run_eval numeral_2_eq_2)

lemma recovering_shape:
  "wf_pipeline (fst recovering) (snd recovering)"
  "all_tasks (\<lambda>t. error t = None) (tasks (fst recovering)) (heap (snd recovering))"
  "get_execution_order (tasks (fst recovering)) (heap (snd recovering)) = [''A'']"
  "world (loop_start (fst recovering) None (snd recovering)) = 0"
  "shared_context (loop_start (fst recovering) None (snd recovering)) = Map.empty"
  "attempt_failures two_then_ok 3 0 Map.empty = [''first'', ''second'']"
  by (simp_all add: build_defs loop_start_def numeral_3_eq_3 run_eval)



lemma daily_run:
  obtains dr p' s' where
    "run (fst daily) None (snd daily) = Inr (dr, p', s')"
    "\<forall>(k, a) \<in> set (run_tasks dr). status (heap s' ! a) = SUCCESS"
proof -
  from daily_run_eval(1) obtain dr p' s' where
    r: "run (fst daily) None (snd daily) = Inr (dr, p', s')" by (auto simp: raised_None)
  from daily_run_eval(2) r have
    "map (\<lambda>(k, a). (k, status (heap s' ! a), result (heap s' ! a), error (heap s' ! a))) (run_tasks dr) =
     [(''fetch_earnings'', SUCCESS, Some 1, None), (''calculate_metrics'', SUCCESS, Some 2, None),
      (''store_results'', SUCCESS, Some 3, None), (''generate_alerts'', SUCCESS, Some 4, None)]"
    by (simp add: executions_def)
  then obtain a b c d where "run_tasks dr = [(''fetch_earnings'', a), (''calculate_metrics'', b),
      (''store_results'', c), (''generate_alerts'', d)]"
    "status (heap s' ! a) = SUCCESS" "status (heap s' ! b) = SUCCESS"
    "status (heap s' ! c) = SUCCESS" "status (heap s' ! d) = SUCCESS"
    by (auto simp: map_eq_Cons_conv)
  then have "\<forall>(k, a) \<in> set (run_tasks dr). status (heap s' ! a) = SUCCESS" by simp
  with r that show ?thesis by blast
qed

section \<open>Claims about the execution order\<close>

text \<open>
  C1. For every acyclic pipeline whose dependency ids all name registered tasks, the sequence
  returned by \<^verbatim>\<open>_get_execution_order\<close> contains each registered task id exactly once, and
  every id appears after all of its transitive dependencies.
\<close>

theorem execution_order_is_topological:
  assumes "acyclic (dep_edges ts h)" "deps_registered ts h"
  shows "distinct (get_execution_order ts h) \<and> set (get_execution_order ts h) = fst ` set ts \<and>
         (\<forall>t d. (t, d) \<in> (dep_edges ts h)\<^sup>+ \<longrightarrow> before d t (get_execution_order ts h))"
proof -
  note keys = get_execution_order_keys[of ts h]
  from get_execution_order_closed[OF assms(1) dep_edges_registered[OF assms(2)]]
  have cl: "closed_order (dep_edges ts h) (get_execution_order ts h)" .
  have "before d t (get_execution_order ts h)" if "(t, d) \<in> (dep_edges ts h)\<^sup>+" for t d
    using closed_order_trancl[OF cl _ that] keys dep_edges_key[OF that] by simp
  with keys show ?thesis by blast
qed

theorem execution_order_is_topological_witness:
  "acyclic (dep_edges (tasks (fst daily)) (heap (snd daily))) \<and>
   deps_registered (tasks (fst daily)) (heap (snd daily)) \<and>
   get_execution_order (tasks (fst daily)) (heap (snd daily)) =
     [''fetch_earnings'', ''calculate_metrics'', ''store_results'', ''generate_alerts''] \<and>
   before ''fetch_earnings'' ''generate_alerts''
     (get_execution_order (tasks (fst daily)) (heap (snd daily)))"
proof -
  let ?E = "dep_edges (tasks (fst daily)) (heap (snd daily))"
  let ?rank = "\<lambda>k. if k = ''fetch_earnings'' then 0 else if k = ''calculate_metrics'' then 1 else (2::nat)"
  have ac: "acyclic ?E"
    by (rule acyclicI_order[where f = ?rank]) (auto simp: daily_edges)
  note reg = daily_shape(5)
  have "(''generate_alerts'', ''calculate_metrics'') \<in> ?E" "(''calculate_metrics'', ''fetch_earnings'') \<in> ?E"
    by (simp_all add: daily_edges)
  then have "(''generate_alerts'', ''fetch_earnings'') \<in> ?E\<^sup>+" by (rule trancl_into_trancl[OF r_into_trancl])
  with execution_order_is_topological[OF ac reg]
  have "before ''fetch_earnings'' ''generate_alerts''
     (get_execution_order (tasks (fst daily)) (heap (snd daily)))" by blast
  with ac reg daily_eval show ?thesis by simp
qed

text \<open>
  C5. The claim is that a dependency id naming no registered task is rejected with a
  configuration error at ordering time, before any task runs. The source has no such check:
  \<open>visit\<close> marks an unknown id as visited and goes on. What holds for every pipeline,
  whatever ids its tasks list as dependencies, is that the order computation returns every
  registered task id exactly once, and nothing else: visiting an id that is not registered
  adds nothing to the order.
\<close>

theorem execution_order_ignores_unregistered_dependencies:
  "distinct (get_execution_order ts h) \<and> set (get_execution_order ts h) = fst ` set ts \<and>
   (\<forall>d visited order. d \<notin> fst ` set ts \<longrightarrow> snd (visit ts h d (visited, order)) = order)"
proof -
  have "snd (visit ts h d (visited, order)) = order" if "d \<notin> fst ` set ts" for d visited order
  proof -
    from that have "map_of ts d = None" by (simp add: map_of_eq_None_iff)
    then show ?thesis by simp
  qed
  with get_execution_order_keys[of ts h] show ?thesis by blast
qed

theorem execution_order_ignores_unregistered_dependencies_witness:
  "''X'' \<notin> fst ` set (tasks (fst dangling)) \<and>
   snd (visit (tasks (fst dangling)) (heap (snd dangling)) ''X'' ({}, [])) = [] \<and>
   distinct (get_execution_order (tasks (fst dangling)) (heap (snd dangling))) \<and>
   set (get_execution_order (tasks (fst dangling)) (heap (snd dangling))) = {''A'', ''B''}"
proof -
  have x: "''X'' \<notin> fst ` set (tasks (fst dangling))" and
    keys: "fst ` set (tasks (fst dangling)) = {''A'', ''B''}"
    by (auto simp: build_defs)
  note main = execution_order_ignores_unregistered_dependencies
    [of "tasks (fst dangling)" "heap (snd dangling)"]
  from main have d: "distinct (get_execution_order (tasks (fst dangling)) (heap (snd dangling)))"
    by (rule conjunct1)
  from main have
    "set (get_execution_order (tasks (fst dangling)) (heap (snd dangling))) =
       fst ` set (tasks (fst dangling))"
    by (elim conjE)
  then have k: "set (get_execution_order (tasks (fst dangling)) (heap (snd dangling))) = {''A'', ''B''}"
    by (simp only: keys)
  from main have
    "\<forall>d visited order. d \<notin> fst ` set (tasks (fst dangling)) \<longrightarrow>
        snd (visit (tasks (fst dangling)) (heap (snd dangling)) d (visited, order)) = order"
    by (elim conjE)
  then have "''X'' \<notin> fst ` set (tasks (fst dangling)) \<longrightarrow>
        snd (visit (tasks (fst dangling)) (heap (snd dangling)) ''X'' ({}, [])) = []"
    by (elim allE)
  with x have v: "snd (visit (tasks (fst dangling)) (heap (snd dangling)) ''X'' ({}, [])) = []"
    by (rule rev_mp)
  from x v d k show ?thesis by (intro conjI)
qed

text \<open>
  In the pipeline \<open>dangling\<close>, whose task \<open>B\<close> depends on the unregistered id \<open>X\<close>, the
  order is computed without complaint, \<open>A\<close> is executed, and only then the gate of \<open>B\<close>
  raises \<^verbatim>\<open>KeyError\<close>.
\<close>

theorem unregistered_dependency_surfaces_mid_run:
  "get_execution_order (tasks (fst dangling)) (heap (snd dangling)) = [''A'', ''B''] \<and>
   raised (run (fst dangling) None (snd dangling)) = Some (KeyError ''X'') \<and>
   stdout (final_state (run (fst dangling) None (snd dangling))) =
     [Starting ''dangling'', ExecutionOrder [''A'', ''B''], Running ''A'' 1 3, Completed ''A'']"
  by (simp add: example_defs run_eval)

section \<open>Claims about cycles\<close>




section \<open>Claims about the shared context\<close>

text \<open>
  C3. The shared context maps a task id to that task's successful result: after a task
  succeeds during \<^verbatim>\<open>run\<close>, its result is in the context under its id and visible to every
  task executed later. The source never assigns to \<^verbatim>\<open>context\<close> in \<^verbatim>\<open>run\<close>: in the two-stage
  pipeline, \<open>fetch\<close> succeeds with result 1, the context still has no entry for \<open>fetch\<close>
  when the run ends, and \<open>metrics\<close>, which reads that entry, fails all three attempts.
\<close>

theorem run_never_stores_result_in_context:
  "raised (run (fst two_stage) None (snd two_stage)) = None \<and>
   executions (run (fst two_stage) None (snd two_stage)) =
     [(''fetch'', SUCCESS, Some 1, None), (''metrics'', FAILED, None, Some ''missing'')] \<and>
   shared_context (final_state (run (fst two_stage) None (snd two_stage))) ''fetch'' = None \<and>
   overall (run (fst two_stage) None (snd two_stage)) = Some FAILED"
  by (simp add: example_defs run_eval)

section \<open>Claims about gating and skip propagation\<close>

text \<open>
  C4. In the run of an acyclic pipeline whose dependency ids are all registered, a task ends
  \<^verbatim>\<open>SKIPPED\<close> if and only if at least one of its dependencies did not end \<^verbatim>\<open>SUCCESS\<close> (a
  skipped dependency counts), so skipping propagates along dependency chains: a task ends
  \<^verbatim>\<open>SKIPPED\<close> as soon as one of its transitive dependencies did not end \<^verbatim>\<open>SUCCESS\<close>; and a
  run with a failed task is \<^verbatim>\<open>FAILED\<close>.
\<close>

theorem skip_iff_dependency_not_successful:
  assumes "wf_pipeline p s" "deps_registered (tasks p) (heap s)"
    "acyclic (dep_edges (tasks p) (heap s))" "run p ctxt s = Inr (dr, p', s')"
  shows "(\<forall>k a. map_of (run_tasks dr) k = Some a \<longrightarrow>
            (status (heap s' ! a) = SKIPPED \<longleftrightarrow>
               (\<exists>d \<in> set (dependencies (heap s' ! a)). \<exists>b. map_of (run_tasks dr) d = Some b \<and>
                   status (heap s' ! b) \<noteq> SUCCESS))) \<and>
         (\<forall>k d a b. (k, d) \<in> (dep_edges (tasks p) (heap s))\<^sup>+ \<longrightarrow>
            map_of (run_tasks dr) k = Some a \<longrightarrow> map_of (run_tasks dr) d = Some b \<longrightarrow>
            status (heap s' ! b) \<noteq> SUCCESS \<longrightarrow> status (heap s' ! a) = SKIPPED) \<and>
         ((\<exists>(k, a) \<in> set (run_tasks dr). status (heap s' ! a) = FAILED) \<longrightarrow> run_status dr = FAILED)"
proof -
  from assms(1) have vr: "valid_refs (tasks p) (heap s)" by (simp add: wf_pipeline_def)
  let ?order = "get_execution_order (tasks p) (heap s)"
  let ?E = "dep_edges (tasks p) (heap s)"
  let ?dt = "run_tasks dr"
  from get_execution_order_closed[OF assms(3) dep_edges_registered[OF assms(2)]]
  have cl: "closed_order ?E ?order" .
  note ord = get_execution_order_keys[of "tasks p" "heap s"]
  from run_Inr[OF vr assms(4)] obtain h0 s6 where c: "copy_tasks (tasks p) (heap s) = (?dt, h0)"
    "dr = finish p s ?dt s6" "heap s' = heap s6" by blast
  have keys: "fst ` set ?dt = fst ` set (tasks p)" by (rule copy_tasks_keys[OF vr c(1)])
  have iff: "status (heap s' ! a) = SKIPPED \<longleftrightarrow>
               (\<exists>d \<in> set (dependencies (heap s' ! a)). \<exists>b. map_of ?dt d = Some b \<and>
                   status (heap s' ! b) \<noteq> SUCCESS)"
    if ka: "map_of ?dt k = Some a" for k a
  proof -
    from run_gate[OF vr assms(2,4) ka] obtain a0 where g:
      "map_of (tasks p) k = Some a0" "dependencies (heap s' ! a) = dependencies (heap s ! a0)"
      "\<forall>d \<in> set (dependencies (heap s ! a0)). \<exists>b b0. map_of ?dt d = Some b \<and>
              map_of (tasks p) d = Some b0 \<and> (k, d) \<in> ?E"
      "status (heap s' ! a) = SKIPPED \<longleftrightarrow>
             (\<exists>d \<in> set (dependencies (heap s ! a0)). \<exists>b b0. map_of ?dt d = Some b \<and>
                map_of (tasks p) d = Some b0 \<and>
                (if before d k ?order
                 then status (heap s' ! b) \<noteq> SUCCESS else status (heap s ! b0) \<noteq> SUCCESS))"
      by blast
    from ka have kin: "k \<in> set ?order" using ord keys by (force dest: map_of_SomeD)
    have bef: "before d k ?order" if "d \<in> set (dependencies (heap s ! a0))" for d
      using cl kin g(3) that by (auto simp: closed_order_def)
    show ?thesis unfolding g(4) g(2) using bef g(3) by (auto; blast)
  qed
  have trans: "status (heap s' ! a) = SKIPPED"
    if "(k, d) \<in> ?E\<^sup>+" "map_of ?dt k = Some a" "map_of ?dt d = Some b" "status (heap s' ! b) \<noteq> SUCCESS"
    for k d a b
    using that
  proof (induction arbitrary: b rule: trancl_induct)
    case (base y)
    from run_gate[OF vr assms(2,4) base(2)] base(1) obtain a0 where
      "map_of (tasks p) k = Some a0" "dependencies (heap s' ! a) = dependencies (heap s ! a0)"
      by blast
    with base(1) have "y \<in> set (dependencies (heap s' ! a))" by (auto simp: dep_edges_def)
    with iff[OF base(2)] base(3,4) show ?case by blast
  next
    case (step y z)
    from dep_edges_key[of y z] step(2) keys obtain c where cy: "map_of ?dt y = Some c"
      by (cases "map_of ?dt y") (auto simp: map_of_eq_None_iff)
    from run_gate[OF vr assms(2,4) cy] obtain c0 where
      "map_of (tasks p) y = Some c0" "dependencies (heap s' ! c) = dependencies (heap s ! c0)"
      by blast
    with step(2) have "z \<in> set (dependencies (heap s' ! c))" by (auto simp: dep_edges_def)
    with iff[OF cy] step(5,6) have "status (heap s' ! c) = SKIPPED" by blast
    then have "status (heap s' ! c) \<noteq> SUCCESS" by simp
    from step(3)[OF step(4) cy this] show ?case .
  qed
  have fail: "run_status dr = FAILED" if "\<exists>(k, a) \<in> set ?dt. status (heap s' ! a) = FAILED"
  proof -
    from that have "\<not> all_finished ?dt (heap s6)"
      unfolding c(3) by (fastforce simp: all_finished_def list_all_iff)
    then show ?thesis by (subst c(2)) (simp add: finish_def)
  qed
  from iff trans fail show ?thesis by blast
qed

theorem skip_iff_dependency_not_successful_witness:
  "wf_pipeline (fst failing_chain) (snd failing_chain) \<and>
   deps_registered (tasks (fst failing_chain)) (heap (snd failing_chain)) \<and>
   acyclic (dep_edges (tasks (fst failing_chain)) (heap (snd failing_chain))) \<and>
   (\<exists>dr p' s' a b c. run (fst failing_chain) None (snd failing_chain) = Inr (dr, p', s') \<and>
      run_tasks dr = [(''A'', a), (''B'', b), (''C'', c)] \<and>
      status (heap s' ! a) = FAILED \<and> status (heap s' ! b) = SKIPPED \<and>
      status (heap s' ! c) = SKIPPED \<and> run_status dr = FAILED)"
proof -
  let ?E = "dep_edges (tasks (fst failing_chain)) (heap (snd failing_chain))"
  let ?rank = "\<lambda>k. if k = ''A'' then 0 else if k = ''B'' then 1 else (2::nat)"
  have ac: "acyclic ?E"
    by (rule acyclicI_order[where f = ?rank]) (auto simp: failing_chain_shape(4))
  have "(''C'', ''B'') \<in> ?E" "(''B'', ''A'') \<in> ?E" by (simp_all add: failing_chain_shape(4))
  then have ca: "(''C'', ''A'') \<in> ?E\<^sup>+" by (rule trancl_into_trancl[OF r_into_trancl])
  obtain dr p' s' a b c where r:
    "run (fst failing_chain) None (snd failing_chain) = Inr (dr, p', s')"
    "run_tasks dr = [(''A'', a), (''B'', b), (''C'', c)]"
    "status (heap s' ! a) = FAILED" "status (heap s' ! b) = SKIPPED"
    by (rule failing_chain_run)
  note main = skip_iff_dependency_not_successful[OF failing_chain_shape(1,2) ac r(1)]
  from r(2) have m: "map_of (run_tasks dr) ''C'' = Some c" "map_of (run_tasks dr) ''A'' = Some a" by simp_all
  from main ca m r(3) have "status (heap s' ! c) = SKIPPED" by (metis TaskStatus.distinct(15))
  moreover from main r(2,3) have "run_status dr = FAILED" by auto
  ultimately show ?thesis using failing_chain_shape(1,2) ac r by blast
qed

section \<open>Claims about retries and errors\<close>

text \<open>
  C6. When the main loop reaches a task whose gate passes, whose \<^verbatim>\<open>retries\<close> is \<open>n > 0\<close>
  and whose body fails on each of its \<open>n\<close> invocations, then at the end of the loop the task
  is \<^verbatim>\<open>FAILED\<close>, its error is the text of the last attempt, its \<^verbatim>\<open>completed_at\<close> is set,
  and exactly \<open>n\<close> attempts were made.
\<close>

theorem retry_exhaustion_ends_failed:
  assumes "valid_dict dt (heap s)" "map_of dt k = Some a" "set rest \<subseteq> fst ` set dt" "k \<notin> set rest"
    and gate: "deps_success dt (heap s) (dependencies (heap s ! a)) = Inr True"
    and n: "retries (heap s ! a) = int n" "0 < n"
    and fails: "attempt_errors (callable (heap s ! a)) n (world s) (shared_context s) = Some es"
    and loop: "exec_tasks dt (k # rest) s = Inr s'"
  shows "status (heap s' ! a) = FAILED \<and> error (heap s' ! a) = Some (last es) \<and>
         completed_at (heap s' ! a) \<noteq> None \<and> length es = n \<and>
         length (filter (is_running k) (printed s s')) = n"
proof -
  from assms(1,2) have len: "a < length (heap s)" by (rule valid_dict_addr)
  let ?s0 = "start_task a s"
  let ?s1 = "attempt_loop a k [0..<n] ?s0"
  have one: "exec_task dt k s = Inr ?s1"
    using exec_task_go[OF assms(2) len gate] n by simp
  with loop have rest: "exec_tasks dt rest ?s1 = Inr s'" by simp
  have len0: "a < length (heap ?s0)" using len by simp
  have "attempt_errors (callable (heap ?s0 ! a)) (n - 0) (world ?s0) (shared_context ?s0) = Some es"
    using fails len by (simp add: start_task_def)
  moreover have "n = nat (retries (heap ?s0 ! a))" using n len by simp
  ultimately have ex: "status (heap ?s1 ! a) = FAILED" "error (heap ?s1 ! a) = Some (last es)"
    "completed_at (heap ?s1 ! a) \<noteq> None" "length es = n"
    "\<exists>log. stdout ?s1 = stdout ?s0 @ log \<and> length (filter (is_running k) log) = n"
    using attempt_loop_exhausted[OF len0, of "[0..<n]" 0 n es k] n(2) by auto
  from attempt_loop_heap[OF len0, of k "[0..<n]"] have len1: "length (heap ?s1) = length (heap s)"
    by (metis length_list_update start_task_simps(2))
  then have vd1: "valid_dict dt (heap ?s1)" using assms(1) by (simp add: valid_dict_def)
  have "a \<notin> addrs dt rest"
    using assms(2,4) valid_dict_inj[OF assms(1)] by (auto simp: addrs_def)
  with exec_tasks_frame[OF rest assms(3) vd1] have same: "heap s' ! a = heap ?s1 ! a" by simp
  from ex(5) obtain log1 where log1: "stdout ?s1 = stdout s @ log1"
    "length (filter (is_running k) log1) = n" by auto
  have "\<exists>log. stdout s' = stdout ?s1 @ log \<and> (\<forall>e \<in> set log. \<not> is_running k e)"
    using rest assms(3,4) vd1
  proof (induction rest arbitrary: s' rule: rev_induct)
    case Nil
    then show ?case by simp
  next
    case (snoc x xs)
    from snoc.prems(1) obtain s2 where s2: "exec_tasks dt xs ?s1 = Inr s2" "exec_task dt x s2 = Inr s'"
      by (auto simp: exec_tasks_snoc_Inr)
    from snoc.IH[OF s2(1)] snoc.prems obtain log where log:
      "stdout s2 = stdout ?s1 @ log" "\<forall>e \<in> set log. \<not> is_running k e" by auto
    from snoc.prems(2) obtain ax where ax: "map_of dt x = Some ax"
      by (cases "map_of dt x") (auto simp: map_of_eq_None_iff)
    from exec_tasks_frame[OF s2(1) _ snoc.prems(4)] snoc.prems(2)
    have "length (heap s2) = length (heap ?s1)" by simp
    with ax snoc.prems(4) have "ax < length (heap s2)" by (auto dest: valid_dict_addr)
    from exec_task_log[OF ax this s2(2)] obtain logx where
      logx: "stdout s' = stdout s2 @ logx" "\<forall>e \<in> set logx. about x e" by blast
    from snoc.prems(3) have "x \<noteq> k" by auto
    with logx(2) have "\<forall>e \<in> set logx. \<not> is_running k e"
      using about_unique is_running_about by blast
    with log logx(1) show ?case by (intro exI[of _ "log @ logx"]) auto
  qed
  then obtain log2 where log2: "stdout s' = stdout ?s1 @ log2" "\<forall>e \<in> set log2. \<not> is_running k e"
    by blast
  have "printed s s' = log1 @ log2" using log1(1) log2(1) by (simp add: printed_def)
  moreover have "filter (is_running k) log2 = []" using log2(2) by (simp add: filter_empty_conv)
  ultimately have "length (filter (is_running k) (printed s s')) = n" using log1(2) by simp
  with ex same show ?thesis by simp
qed

theorem retry_exhaustion_ends_failed_witness:
  "valid_dict exhausting_dict (heap exhausting_start) \<and>
   map_of exhausting_dict ''A'' = Some 1 \<and>
   deps_success exhausting_dict (heap exhausting_start)
     (dependencies (heap exhausting_start ! 1)) = Inr True \<and>
   retries (heap exhausting_start ! 1) = 2 \<and>
   attempt_errors (callable (heap exhausting_start ! 1)) 2 (world exhausting_start)
     (shared_context exhausting_start) = Some [''first'', ''second''] \<and>
   (\<exists>s'. exec_tasks exhausting_dict [''A''] exhausting_start = Inr s' \<and>
      status (heap s' ! 1) = FAILED \<and> error (heap s' ! 1) = Some ''second'' \<and>
      completed_at (heap s' ! 1) \<noteq> None \<and>
      length (filter (is_running ''A'') (printed exhausting_start s')) = 2)"
proof -
  from exhausting_shape(6) obtain s' where
    s': "exec_tasks exhausting_dict [''A''] exhausting_start = Inr s'" by blast
  have m: "map_of exhausting_dict ''A'' = Some 1" by (simp add: exhausting_shape(1))
  from retry_exhaustion_ends_failed[OF exhausting_shape(2) m _ _ exhausting_shape(3,4) _
      exhausting_shape(5) s']
  have "status (heap s' ! 1) = FAILED \<and> error (heap s' ! 1) = Some ''second'' \<and>
      completed_at (heap s' ! 1) \<noteq> None \<and>
      length (filter (is_running ''A'') (printed exhausting_start s')) = 2" by simp
  with exhausting_shape(2,3,4,5) m s' show ?thesis by auto
qed

text \<open>
  C9. The claim is that the error field is set only on a failed execution, so that a task
  that failed earlier attempts and then succeeded ends with the error unset. The source
  records the text of every failed attempt and never clears it. What holds for every task of a
  run, when the registered tasks have no error to begin with: let \<open>fs\<close> be the texts of the
  attempts that fail, in their order, when the body is invoked from the state in which the
  main loop reaches the task. A skipped task and a task with no failed attempt end with the
  error unset. Every other task ends with the text of its last failed attempt as its error,
  and when fewer attempts failed than the task has, it is \<^verbatim>\<open>SUCCESS\<close> all the same. A failed
  task has an error, and the error is set exactly when a failed attempt of the task was
  printed during the run.
\<close>

theorem error_is_text_of_last_failed_attempt:
  assumes "wf_pipeline p s" "all_tasks (\<lambda>t. error t = None) (tasks p) (heap s)"
    "run p ctxt s = Inr (dr, p', s')" "map_of (run_tasks dr) k = Some a"
  shows "\<exists>pre rest s1 fs.
           get_execution_order (tasks p) (heap s) = pre @ k # rest \<and>
           exec_tasks (run_tasks dr) pre (loop_start p ctxt s) = Inr s1 \<and>
           fs = attempt_failures (callable (heap s' ! a)) (nat (retries (heap s' ! a)))
                  (world s1) (shared_context s1) \<and>
           error (heap s' ! a) =
             (if status (heap s' ! a) = SKIPPED \<or> fs = [] then None else Some (last fs)) \<and>
           (status (heap s' ! a) = FAILED \<longrightarrow> error (heap s' ! a) \<noteq> None) \<and>
           (status (heap s' ! a) \<noteq> SKIPPED \<and> length fs < nat (retries (heap s' ! a)) \<longrightarrow>
              status (heap s' ! a) = SUCCESS) \<and>
           (error (heap s' ! a) \<noteq> None \<longleftrightarrow> (\<exists>e \<in> set (printed s s'). failed_attempt k e))"
proof -
  from assms(1) have vr: "valid_refs (tasks p) (heap s)" by (simp add: wf_pipeline_def)
  let ?order = "get_execution_order (tasks p) (heap s)"
  let ?dt = "run_tasks dr"
  let ?s0 = "loop_start p ctxt s"
  from run_Inr[OF vr assms(3)] obtain h0 s6 where r:
    "copy_tasks (tasks p) (heap s) = (?dt, h0)" "heap ?s0 = h0"
    "exec_tasks ?dt ?order ?s0 = Inr s6" "heap s' = heap s6" by blast
  note vd = copy_tasks_valid[OF vr r(1)]
  have keys: "fst ` set ?dt = fst ` set (tasks p)" by (rule copy_tasks_keys[OF vr r(1)])
  have ord: "distinct ?order" "set ?order = fst ` set ?dt"
    using get_execution_order_keys[of "tasks p" "heap s"] keys by auto
  from copy_tasks_lookup[OF vr r(1) assms(4)] obtain a0 where a0:
    "map_of (tasks p) k = Some a0" "h0 ! a = heap s ! a0" by auto
  from a0(1) have "a0 \<in> snd ` set (tasks p)" by (force dest: map_of_SomeD)
  with assms(2) a0(2) have e0: "error (h0 ! a) = None" by (auto simp: all_tasks_def)
  have vd0: "valid_dict ?dt (heap ?s0)" using vd r(2) by simp
  from assms(4) have "k \<in> fst ` set ?dt" by (force dest: map_of_SomeD)
  with ord(2) have "k \<in> set ?order" by simp
  then obtain pre rest where sp: "?order = pre @ k # rest" by (auto dest: split_list)
  with ord(1) have nk: "k \<notin> set pre" "k \<notin> set rest" by auto
  from sp ord(2) have sub: "set pre \<subseteq> fst ` set ?dt" "set rest \<subseteq> fst ` set ?dt" by auto
  from r(3) obtain s1 where s1: "exec_tasks ?dt pre ?s0 = Inr s1" "exec_tasks ?dt (k # rest) s1 = Inr s6"
    unfolding sp exec_tasks_append_Inr by blast
  have "a \<notin> addrs ?dt pre"
    using assms(4) nk(1) valid_dict_inj[OF vd0] by (auto simp: addrs_def)
  with exec_tasks_frame[OF s1(1) sub(1) vd0] have fr: "length (heap s1) = length (heap ?s0)"
    "heap s1 ! a = heap ?s0 ! a" by simp_all
  from fr(1) vd0 have vd1: "valid_dict ?dt (heap s1)" by (simp add: valid_dict_def)
  from vd1 assms(4) have len1: "a < length (heap s1)" by (rule valid_dict_addr)
  have sub6: "set (k # rest) \<subseteq> fst ` set ?dt" using sub(2) \<open>k \<in> fst ` set ?dt\<close> by simp
  from exec_tasks_frame[OF s1(2) sub6 vd1] len1
  have "same_definition (heap s1 ! a) (heap s6 ! a)" by simp
  then have sd: "callable (heap s1 ! a) = callable (heap s' ! a)"
    "retries (heap s1 ! a) = retries (heap s' ! a)"
    by (simp_all add: same_definition_def r(4))
  define fs where "fs = attempt_failures (callable (heap s' ! a)) (nat (retries (heap s' ! a)))
                  (world s1) (shared_context s1)"
  then have fs1: "fs = attempt_failures (callable (heap s1 ! a)) (nat (retries (heap s1 ! a)))
                  (world s1) (shared_context s1)" by (simp add: sd)
  have main: "error (heap s' ! a) =
             (if status (heap s' ! a) = SKIPPED \<or> fs = [] then None else Some (last fs))"
    "status (heap s' ! a) \<noteq> SKIPPED \<and> length fs < nat (retries (heap s' ! a)) \<longrightarrow>
              status (heap s' ! a) = SUCCESS"
  proof -
    have e1: "error (heap s1 ! a) = None" using fr(2) r(2) e0 by simp
    note L = exec_tasks_last_failure[OF vd1 assms(4) sub(2) nk(2) fs1 s1(2),
        folded r(4), unfolded e1 sd(2)]
    from L show "error (heap s' ! a) =
             (if status (heap s' ! a) = SKIPPED \<or> fs = [] then None else Some (last fs))"
      by (rule conjunct1)
    from L show "status (heap s' ! a) \<noteq> SKIPPED \<and> length fs < nat (retries (heap s' ! a)) \<longrightarrow>
              status (heap s' ! a) = SUCCESS"
      by (elim conjE)
  qed
  from error_set_iff_failed_attempt_printed[OF assms]
  have old: "error (heap s' ! a) \<noteq> None \<longleftrightarrow> (\<exists>e \<in> set (printed s s'). failed_attempt k e)"
    "status (heap s' ! a) = FAILED \<longrightarrow> error (heap s' ! a) \<noteq> None" by blast+
  from sp s1(1) fs_def main old show ?thesis by blast
qed

theorem error_is_text_of_last_failed_attempt_witness:
  "wf_pipeline (fst recovering) (snd recovering) \<and>
   all_tasks (\<lambda>t. error t = None) (tasks (fst recovering)) (heap (snd recovering)) \<and>
   attempt_failures two_then_ok 3 0 Map.empty = [''first'', ''second''] \<and>
   (\<exists>dr p' s' a. run (fst recovering) None (snd recovering) = Inr (dr, p', s') \<and>
      map_of (run_tasks dr) ''A'' = Some a \<and>
      status (heap s' ! a) = SUCCESS \<and> result (heap s' ! a) = Some 7 \<and>
      error (heap s' ! a) = Some ''second'')"
proof -
  from recovering_run obtain dr p' s' where
    r: "run (fst recovering) None (snd recovering) = Inr (dr, p', s')"
    "run_tasks dr = [(''A'', 1)]" "status (heap s' ! 1) = SUCCESS"
    "result (heap s' ! 1) = Some 7" "callable (heap s' ! 1) = two_then_ok"
    "retries (heap s' ! 1) = 3" by blast
  from r(2) have m: "map_of (run_tasks dr) ''A'' = Some 1" by simp
  from error_is_text_of_last_failed_attempt[OF recovering_shape(1,2) r(1) m] obtain pre rest s1 fs where
    t: "get_execution_order (tasks (fst recovering)) (heap (snd recovering)) = pre @ ''A'' # rest"
    "exec_tasks (run_tasks dr) pre (loop_start (fst recovering) None (snd recovering)) = Inr s1"
    "fs = attempt_failures (callable (heap s' ! 1)) (nat (retries (heap s' ! 1)))
                  (world s1) (shared_context s1)"
    "error (heap s' ! 1) =
             (if status (heap s' ! 1) = SKIPPED \<or> fs = [] then None else Some (last fs))"
    by blast
  from t(1) have "pre = []" unfolding recovering_shape(3) by (simp add: Cons_eq_append_conv)
  with t(2) have "s1 = loop_start (fst recovering) None (snd recovering)" by simp
  with t(3) r(5,6) have "fs = [''first'', ''second'']"
    by (simp only: recovering_shape(4,5,6) nat_numeral)
  with t(4) r(3) have "error (heap s' ! 1) = Some ''second''" by simp
  with recovering_shape(1,2,6) r(1,3,4) m show ?thesis by blast
qed

text \<open>
  The task of the pipeline \<open>flaky\<close> fails its first attempt and succeeds on the second: it
  ends \<^verbatim>\<open>SUCCESS\<close> with the text of the first attempt still in its error field.
\<close>

theorem retried_success_keeps_error:
  "raised (run (fst flaky) None (snd flaky)) = None \<and>
   executions (run (fst flaky) None (snd flaky)) = [(''A'', SUCCESS, Some 7, Some ''timeout'')]"
  by (simp add: example_defs run_eval)

section \<open>Claims about what the caller receives\<close>

text \<open>
  C7. \<^verbatim>\<open>run\<close> never raises for a failure of a task body. Whatever the bodies do, the only
  exception that leaves \<^verbatim>\<open>run\<close> is the \<^verbatim>\<open>KeyError\<close> for a dependency id that is not
  registered; otherwise the caller receives a \<^verbatim>\<open>DAGRun\<close> with an end time, appended to
  \<^verbatim>\<open>self.runs\<close>, with one Task per registered id. The status of the \<^verbatim>\<open>DAGRun\<close> is
  \<^verbatim>\<open>SUCCESS\<close> when every one of its tasks is \<^verbatim>\<open>SUCCESS\<close> or \<^verbatim>\<open>SKIPPED\<close> and \<^verbatim>\<open>FAILED\<close>
  otherwise. Every task of it is \<^verbatim>\<open>SKIPPED\<close>, \<^verbatim>\<open>SUCCESS\<close> with its result and end time,
  \<^verbatim>\<open>FAILED\<close> with its error text and end time (and then the run is \<^verbatim>\<open>FAILED\<close>), or still
  \<^verbatim>\<open>RUNNING\<close>, which happens only to a task that has no attempt to make; and every task for
  which a failed attempt was printed carries an error text. When all dependency ids are
  registered, \<^verbatim>\<open>run\<close> returns.
\<close>

theorem run_reports_task_failures_in_record:
  assumes "wf_pipeline p s"
  shows "(case run p ctxt s of
            Inr (dr, p', s') \<Rightarrow>
              p' = p\<lparr>runs := runs p @ [dr]\<rparr> \<and> end_time dr \<noteq> None \<and>
              map fst (run_tasks dr) = map fst (tasks p) \<and>
              run_status dr =
                (if \<forall>(k, a) \<in> set (run_tasks dr). status (heap s' ! a) \<in> {SUCCESS, SKIPPED}
                 then SUCCESS else FAILED) \<and>
              (\<forall>(k, a) \<in> set (run_tasks dr).
                 status (heap s' ! a) \<in> {SKIPPED, RUNNING, SUCCESS, FAILED} \<and>
                 (status (heap s' ! a) = RUNNING \<longrightarrow> retries (heap s' ! a) \<le> 0) \<and>
                 (status (heap s' ! a) = SUCCESS \<longrightarrow>
                    result (heap s' ! a) \<noteq> None \<and> completed_at (heap s' ! a) \<noteq> None) \<and>
                 (status (heap s' ! a) = FAILED \<longrightarrow>
                    error (heap s' ! a) \<noteq> None \<and> completed_at (heap s' ! a) \<noteq> None \<and>
                    run_status dr = FAILED) \<and>
                 ((\<exists>e \<in> set (printed s s'). failed_attempt k e) \<longrightarrow> error (heap s' ! a) \<noteq> None))
          | Inl (e, p', s') \<Rightarrow>
              p' = p \<and>
              (\<exists>d. e = KeyError d \<and> d \<notin> fst ` set (tasks p) \<and>
                   (\<exists>a \<in> snd ` set (tasks p). d \<in> set (dependencies (heap s ! a)))))
       \<and> (deps_registered (tasks p) (heap s) \<longrightarrow> (\<exists>dr p' s'. run p ctxt s = Inr (dr, p', s')))"
proof -
  from assms have vr: "valid_refs (tasks p) (heap s)" and dk: "distinct (map fst (tasks p))"
    by (simp_all add: wf_pipeline_def)
  let ?order = "get_execution_order (tasks p) (heap s)"
  have raise: "p' = p \<and> (\<exists>d. e = KeyError d \<and> d \<notin> fst ` set (tasks p) \<and>
                   (\<exists>a \<in> snd ` set (tasks p). d \<in> set (dependencies (heap s ! a))))"
    if r: "run p ctxt s = Inl (e, p', s')" for e p' s'
  proof -
    from run_Inl[OF vr r] obtain dt h0 where c: "copy_tasks (tasks p) (heap s) = (dt, h0)"
      "heap (loop_start p ctxt s) = h0" "exec_tasks dt ?order (loop_start p ctxt s) = Inl (e, s')" "p' = p"
      by blast
    note vd = copy_tasks_valid[OF vr c(1)]
    have keys: "fst ` set dt = fst ` set (tasks p)" by (rule copy_tasks_keys[OF vr c(1)])
    have sub: "set ?order \<subseteq> fst ` set dt"
      using get_execution_order_keys[of "tasks p" "heap s"] keys by auto
    have vd': "valid_dict dt (heap (loop_start p ctxt s))" using vd c(2) by simp
    from exec_tasks_KeyError[OF c(3) sub vd'] c(2) obtain k a d where
      k: "map_of dt k = Some a" "d \<in> set (dependencies (h0 ! a))" "map_of dt d = None" "e = KeyError d"
      by auto
    from copy_tasks_lookup[OF vr c(1) k(1)] obtain a0 where
      "map_of (tasks p) k = Some a0" "h0 ! a = heap s ! a0" by auto
    moreover then have "a0 \<in> snd ` set (tasks p)" by (force dest: map_of_SomeD)
    moreover from k(3) keys have "d \<notin> fst ` set (tasks p)" by (simp add: map_of_eq_None_iff)
    ultimately show ?thesis using k c(4) by auto
  qed
  have ret: "p' = p\<lparr>runs := runs p @ [dr]\<rparr> \<and> end_time dr \<noteq> None \<and>
              map fst (run_tasks dr) = map fst (tasks p) \<and>
              run_status dr =
                (if \<forall>(k, a) \<in> set (run_tasks dr). status (heap s' ! a) \<in> {SUCCESS, SKIPPED}
                 then SUCCESS else FAILED) \<and>
              (\<forall>(k, a) \<in> set (run_tasks dr).
                 status (heap s' ! a) \<in> {SKIPPED, RUNNING, SUCCESS, FAILED} \<and>
                 (status (heap s' ! a) = RUNNING \<longrightarrow> retries (heap s' ! a) \<le> 0) \<and>
                 (status (heap s' ! a) = SUCCESS \<longrightarrow>
                    result (heap s' ! a) \<noteq> None \<and> completed_at (heap s' ! a) \<noteq> None) \<and>
                 (status (heap s' ! a) = FAILED \<longrightarrow>
                    error (heap s' ! a) \<noteq> None \<and> completed_at (heap s' ! a) \<noteq> None \<and>
                    run_status dr = FAILED) \<and>
                 ((\<exists>e \<in> set (printed s s'). failed_attempt k e) \<longrightarrow> error (heap s' ! a) \<noteq> None))"
    if r: "run p ctxt s = Inr (dr, p', s')" for dr p' s'
  proof -
    from run_Inr[OF vr r] obtain h0 s6 where c: "copy_tasks (tasks p) (heap s) = (run_tasks dr, h0)"
      "dr = finish p s (run_tasks dr) s6" "p' = p\<lparr>runs := runs p @ [dr]\<rparr>" "heap s' = heap s6"
      by blast
    have mk: "map fst (run_tasks dr) = map fst (tasks p)" by (rule copy_tasks_heap(3)[OF vr c(1)])
    have st: "run_status dr =
                (if \<forall>(k, a) \<in> set (run_tasks dr). status (heap s' ! a) \<in> {SUCCESS, SKIPPED}
                 then SUCCESS else FAILED)"
      by (subst c(2)) (simp add: finish_def all_finished_def list_all_iff c(4))
    from printed_run[OF vr r] obtain log where log:
      "printed s s' = Starting (dag_id p) # ExecutionOrder ?order # log"
      "\<And>k a. map_of (run_tasks dr) k = Some a \<Longrightarrow>
          (if \<exists>e \<in> set log. failed_attempt k e
           then error (heap s' ! a) \<noteq> None
           else error (heap s' ! a) = error (snd (copy_tasks (tasks p) (heap s)) ! a))"
      by blast
    have each: "status (heap s' ! a) \<in> {SKIPPED, RUNNING, SUCCESS, FAILED} \<and>
                 (status (heap s' ! a) = RUNNING \<longrightarrow> retries (heap s' ! a) \<le> 0) \<and>
                 (status (heap s' ! a) = SUCCESS \<longrightarrow>
                    result (heap s' ! a) \<noteq> None \<and> completed_at (heap s' ! a) \<noteq> None) \<and>
                 (status (heap s' ! a) = FAILED \<longrightarrow>
                    error (heap s' ! a) \<noteq> None \<and> completed_at (heap s' ! a) \<noteq> None \<and>
                    run_status dr = FAILED) \<and>
                 ((\<exists>e \<in> set (printed s s'). failed_attempt k e) \<longrightarrow> error (heap s' ! a) \<noteq> None)"
      if ka: "(k, a) \<in> set (run_tasks dr)" for k a
    proof -
      from ka mk dk have m: "map_of (run_tasks dr) k = Some a" by simp
      from run_tasks_processed[OF vr r m] obtain h0' a0 where
        pr: "processed (run_tasks dr) ?order h0' (heap s') k a"
        and sd: "h0' ! a = heap s ! a0" "same_definition (heap s ! a0) (heap s' ! a)" by blast
      from sd have "retries (h0' ! a) = retries (heap s' ! a)" by (simp add: same_definition_def)
      with pr have rn: "status (heap s' ! a) = RUNNING \<longrightarrow> retries (heap s' ! a) \<le> 0"
        by (auto simp: processed_def)
      have f: "status (heap s' ! a) = FAILED \<longrightarrow> run_status dr = FAILED"
        unfolding st using ka by auto
      have "(\<exists>e \<in> set (printed s s'). failed_attempt k e) \<longleftrightarrow> (\<exists>e \<in> set log. failed_attempt k e)"
        unfolding log(1) by (simp add: failed_attempt_def)
      with log(2)[OF m] have "(\<exists>e \<in> set (printed s s'). failed_attempt k e) \<longrightarrow> error (heap s' ! a) \<noteq> None"
        by (auto split: if_splits)
      with pr f rn show ?thesis by (auto simp: processed_def settled_def)
    qed
    have "end_time dr \<noteq> None" by (subst c(2)) (simp add: finish_def)
    with c(3) mk st each show ?thesis by blast
  qed
  have total: "\<exists>dr p' s'. run p ctxt s = Inr (dr, p', s')" if reg: "deps_registered (tasks p) (heap s)"
    using run_total[OF vr reg] .
  have T: "deps_registered (tasks p) (heap s) \<longrightarrow> (\<exists>dr p' s'. run p ctxt s = Inr (dr, p', s'))"
    using total by blast
  show ?thesis
  proof (cases "run p ctxt s")
    case (Inl x)
    obtain e p' s' where x: "x = (e, p', s')" by (cases x)
    note R = raise[OF Inl[unfolded x]]
    show ?thesis
      by (rule conjI, simp only: Inl x sum.case prod.case, rule R, rule T)
  next
    case (Inr x)
    obtain dr p' s' where x: "x = (dr, p', s')" by (cases x)
    note R = ret[OF Inr[unfolded x]]
    show ?thesis
      by (rule conjI, simp only: Inr x sum.case prod.case, rule R, rule T)
  qed
qed

theorem run_reports_task_failures_in_record_witness:
  "wf_pipeline (fst failing_chain) (snd failing_chain) \<and>
   deps_registered (tasks (fst failing_chain)) (heap (snd failing_chain)) \<and>
   wf_pipeline (fst daily) (snd daily) \<and>
   executions (run (fst failing_chain) None (snd failing_chain)) =
     [(''A'', FAILED, None, Some ''boom''), (''B'', SKIPPED, None, None), (''C'', SKIPPED, None, None)] \<and>
   (\<exists>dr p' s' a. run (fst failing_chain) None (snd failing_chain) = Inr (dr, p', s') \<and>
      p' = (fst failing_chain)\<lparr>runs := runs (fst failing_chain) @ [dr]\<rparr> \<and>
      end_time dr \<noteq> None \<and> map_of (run_tasks dr) ''A'' = Some a \<and>
      status (heap s' ! a) = FAILED \<and> error (heap s' ! a) \<noteq> None \<and> run_status dr = FAILED) \<and>
   (\<exists>dr p' s'. run (fst daily) None (snd daily) = Inr (dr, p', s') \<and> run_status dr = SUCCESS)"
proof -
  obtain dr p' s' a b c where r:
    "run (fst failing_chain) None (snd failing_chain) = Inr (dr, p', s')"
    "run_tasks dr = [(''A'', a), (''B'', b), (''C'', c)]"
    "status (heap s' ! a) = FAILED"
    by (rule failing_chain_run)
  note main = run_reports_task_failures_in_record[OF failing_chain_shape(1), of None]
  from main r(1) have m1: "p' = (fst failing_chain)\<lparr>runs := runs (fst failing_chain) @ [dr]\<rparr>"
    "end_time dr \<noteq> None"
    by simp_all
  from main r(1) have m3: "\<forall>(k, a) \<in> set (run_tasks dr).
       status (heap s' ! a) = FAILED \<longrightarrow> error (heap s' ! a) \<noteq> None \<and> run_status dr = FAILED"
    by auto
  from m3 r(2,3) have f: "error (heap s' ! a) \<noteq> None" "run_status dr = FAILED" by simp_all
  from r(2) have ma: "map_of (run_tasks dr) ''A'' = Some a" by simp
  obtain dr2 p2 s2 where r2: "run (fst daily) None (snd daily) = Inr (dr2, p2, s2)"
    "\<forall>(k, a) \<in> set (run_tasks dr2). status (heap s2 ! a) = SUCCESS"
    by (rule daily_run)
  from run_reports_task_failures_in_record[OF daily_shape(4), of None] r2(1)
  have "run_status dr2 =
          (if \<forall>(k, a) \<in> set (run_tasks dr2). status (heap s2 ! a) \<in> {SUCCESS, SKIPPED}
           then SUCCESS else FAILED)" by simp
  with r2(2) have s2: "run_status dr2 = SUCCESS" by auto
  from failing_chain_shape(1,2) daily_shape(4) failing_chain_eval(2) r(1,3) m1(1,2) ma f r2(1) s2
  show ?thesis by blast
qed

text \<open>
  C8. The claim is that the status of a completed run is \<^verbatim>\<open>SUCCESS\<close> if and only if no task
  is \<^verbatim>\<open>FAILED\<close>, equivalently if and only if every task is \<^verbatim>\<open>SUCCESS\<close> or \<^verbatim>\<open>SKIPPED\<close>, and
  that it is computed after every task has reached a terminal state. \<^verbatim>\<open>add_task\<close> accepts
  \<^verbatim>\<open>retries=0\<close>; for such a task the gate passes, the status is set to \<^verbatim>\<open>RUNNING\<close>, and the
  retry loop, which alone sets \<^verbatim>\<open>SUCCESS\<close> or \<^verbatim>\<open>FAILED\<close>, makes no iteration. In the
  pipeline \<open>zero_attempts\<close> the body of \<open>A\<close> is never invoked and nothing is printed for
  \<open>A\<close>, \<open>A\<close> is still \<^verbatim>\<open>RUNNING\<close> when the status of the run is computed, \<open>B\<close> is
  skipped, and the run is \<^verbatim>\<open>FAILED\<close> although no task is \<^verbatim>\<open>FAILED\<close>. (For pipelines whose
  tasks all have a positive number of attempts the claim holds, see
  \<open>overall_status_with_positive_retries\<close>.)
\<close>

theorem zero_retries_leave_task_running:
  "raised (run (fst zero_attempts) None (snd zero_attempts)) = None \<and>
   executions (run (fst zero_attempts) None (snd zero_attempts)) =
     [(''A'', RUNNING, None, None), (''B'', SKIPPED, None, None)] \<and>
   overall (run (fst zero_attempts) None (snd zero_attempts)) = Some FAILED \<and>
   stdout (final_state (run (fst zero_attempts) None (snd zero_attempts))) =
     [Starting ''zero'', ExecutionOrder [''A'', ''B''], Skipping ''B'']"
  by (simp add: example_defs run_eval)

section \<open>Claims about the registered tasks after a run\<close>

text \<open>
  C10. \<^verbatim>\<open>run\<close> leaves the registered Task definitions unchanged: the Tasks of the
  \<^verbatim>\<open>DAGRun\<close> are new objects, the task mapping of the pipeline and every object it refers
  to are after the run what they were before, so registered tasks that were \<^verbatim>\<open>PENDING\<close> with
  unset result, error and time stamps still are, and the pipeline can be run again.
\<close>

theorem run_leaves_registered_tasks_unchanged:
  assumes "wf_pipeline p s" "run p ctxt s = Inr (dr, p', s')"
  shows "tasks p' = tasks p \<and> wf_pipeline p' s' \<and>
         (\<forall>a \<in> snd ` set (tasks p). heap s' ! a = heap s ! a) \<and>
         snd ` set (run_tasks dr) \<inter> snd ` set (tasks p) = {} \<and>
         (all_tasks pristine (tasks p) (heap s) \<longrightarrow> all_tasks pristine (tasks p') (heap s'))"
proof -
  from assms(1) have vr: "valid_refs (tasks p) (heap s)" by (simp add: wf_pipeline_def)
  note fr = run_frame[OF vr assms(2)]
  from run_Inr[OF vr assms(2)] have p': "tasks p' = tasks p" by auto
  have same: "\<forall>a \<in> snd ` set (tasks p). heap s' ! a = heap s ! a"
    using fr(2) vr by (auto simp: valid_refs_def)
  have "wf_pipeline p' s'" using assms(1) fr(1) p' by (fastforce simp: wf_pipeline_def valid_refs_def)
  moreover have "snd ` set (run_tasks dr) \<inter> snd ` set (tasks p) = {}"
    using fr(3) vr by (fastforce simp: valid_refs_def)
  ultimately show ?thesis using p' same by (simp add: all_tasks_def)
qed

theorem run_leaves_registered_tasks_unchanged_witness:
  "wf_pipeline (fst daily) (snd daily) \<and>
   all_tasks pristine (tasks (fst daily)) (heap (snd daily)) \<and>
   (\<exists>dr p' s'. run (fst daily) None (snd daily) = Inr (dr, p', s') \<and>
      tasks p' = tasks (fst daily) \<and> wf_pipeline p' s' \<and>
      all_tasks pristine (tasks p') (heap s') \<and>
      snd ` set (run_tasks dr) \<inter> snd ` set (tasks (fst daily)) = {})"
proof -
  from daily_shape(4) have "valid_refs (tasks (fst daily)) (heap (snd daily))"
    by (simp add: wf_pipeline_def)
  from run_total[OF this daily_shape(5), of None] obtain dr p' s' where
    r: "run (fst daily) None (snd daily) = Inr (dr, p', s')" by blast
  from run_leaves_registered_tasks_unchanged[OF daily_shape(4) r] daily_shape(3)
  have "tasks p' = tasks (fst daily) \<and> wf_pipeline p' s' \<and>
      all_tasks pristine (tasks p') (heap s') \<and>
      snd ` set (run_tasks dr) \<inter> snd ` set (tasks (fst daily)) = {}" by blast
  with daily_shape(3,4) r show ?thesis by blast
qed

end
